theory Spec2Isabelle
  imports Main "HOL-Library.Sublist"
begin

section \<open>JavaScript values\<close>

text \<open>
  The values a caller can put into the store. Numbers are the integers that JavaScript
  prints in plain decimal; strings are byte strings. A function value is host code: it is
  known by an identifier and by what it returns, truthy or not, when it is called with a
  property key, and it is taken to return without effect. A plain object is the list of
  its own enumerable properties in enumeration order; its prototype is
  \<^verbatim>\<open>Object.prototype\<close>.
\<close>

datatype jsval =
    JUndefined
  | JNull
  | JBool bool
  | JNum int
  | JStr string
  | JFun nat "string \<Rightarrow> bool"
  | JArr "jsval list"
  | JObj "(string \<times> jsval) list"

datatype js_type = TUndefined | TObject | TBoolean | TNumber | TString | TFunction

fun typeof :: "jsval \<Rightarrow> js_type" where
  "typeof JUndefined = TUndefined"
| "typeof JNull = TObject"
| "typeof (JBool b) = TBoolean"
| "typeof (JNum n) = TNumber"
| "typeof (JStr s) = TString"
| "typeof (JFun f returns) = TFunction"
| "typeof (JArr xs) = TObject"
| "typeof (JObj ps) = TObject"

text \<open>
  The errors the store raises: \<open>NotInitializedError\<close> and \<open>UndefinedSelectorError\<close>
  are the two \<^verbatim>\<open>Error\<close>s thrown by \<^verbatim>\<open>get\<close> and \<^verbatim>\<open>getSelector\<close>;
  \<open>InvalidArgumentError\<close> is the \<^verbatim>\<open>TypeError\<close> thrown by \<^verbatim>\<open>defineSelector\<close>
  for a name that is not a string; \<open>UndefinedAccessError\<close> is the \<^verbatim>\<open>TypeError\<close>
  the runtime raises when the code reads a property of \<^verbatim>\<open>undefined\<close>, and
  \<open>NotCallableError\<close> the one it raises when the code calls a value that is not a
  function.
\<close>

datatype error =
    NotInitializedError
  | UndefinedSelectorError
  | InvalidArgumentError
  | UndefinedAccessError
  | NotCallableError

subsection \<open>Properties of plain objects\<close>

text \<open>\<^verbatim>\<open>Object.keys(o)\<close>; the store applies it, and the reads below, to plain objects
  only.\<close>

fun Object_keys :: "jsval \<Rightarrow> string list" where
  "Object_keys (JObj ps) = map fst ps"
| "Object_keys v = []"

text \<open>
  What a read finds on \<^verbatim>\<open>Object.prototype\<close> when the object has no own property of
  that name: one of its functions, or, for \<^verbatim>\<open>__proto__\<close>, the prototype itself. The
  comparator asks of the value it reads only its \<^verbatim>\<open>typeof\<close>, its \<^verbatim>\<open>toString\<close> tag
  and its JSON, so a function of the prototype is given as a function value, and the
  prototype as a plain object without enumerable properties.
\<close>

definition prototype_functions :: "string list" where
  "prototype_functions =
     [''constructor'', ''hasOwnProperty'', ''isPrototypeOf'', ''propertyIsEnumerable'',
      ''toLocaleString'', ''toString'', ''valueOf'', ''__defineGetter__'',
      ''__defineSetter__'', ''__lookupGetter__'', ''__lookupSetter__'']"

definition inherited :: "string \<Rightarrow> jsval" where
  "inherited key =
     (if key \<in> set prototype_functions then JFun 0 (\<lambda>k. True)
      else if key = ''__proto__'' then JObj []
      else JUndefined)"

text \<open>\<^verbatim>\<open>o[key]\<close>\<close>

fun get_prop :: "jsval \<Rightarrow> string \<Rightarrow> jsval" where
  "get_prop (JObj ps) key = (case map_of ps key of None \<Rightarrow> inherited key | Some v \<Rightarrow> v)"
| "get_prop v key = JUndefined"

text \<open>
  \<^verbatim>\<open>a.hasOwnProperty(key)\<close>: the method is read from the object itself. An own property
  named \<^verbatim>\<open>hasOwnProperty\<close> shadows the one of the prototype: it is called when it is a
  function, and the call throws when it is not. Otherwise the method of the prototype
  answers whether the key is an own property.
\<close>

fun hasOwnProperty :: "jsval \<Rightarrow> string \<Rightarrow> error + bool" where
  "hasOwnProperty (JObj ps) key =
     (case map_of ps ''hasOwnProperty'' of
        None \<Rightarrow> Inr (key \<in> set (map fst ps))
      | Some (JFun f returns) \<Rightarrow> Inr (returns key)
      | Some v \<Rightarrow> Inl NotCallableError)"
| "hasOwnProperty v key = Inr (key \<in> set (Object_keys v))"

subsection \<open>\<^verbatim>\<open>JSON.stringify\<close>\<close>

definition hex_digit :: "nat \<Rightarrow> char" where
  "hex_digit n = (if n < 10 then char_of (48 + n) else char_of (87 + n))"

definition escape_char :: "char \<Rightarrow> string" where
  "escape_char c =
     (if c = CHR 0x22 then [CHR 0x5C, CHR 0x22]
      else if c = CHR 0x5C then [CHR 0x5C, CHR 0x5C]
      else if c = CHR 0x08 then [CHR 0x5C, CHR ''b'']
      else if c = CHR 0x0C then [CHR 0x5C, CHR ''f'']
      else if c = CHR 0x0A then [CHR 0x5C, CHR ''n'']
      else if c = CHR 0x0D then [CHR 0x5C, CHR ''r'']
      else if c = CHR 0x09 then [CHR 0x5C, CHR ''t'']
      else if (of_char c :: nat) < 32
        then [CHR 0x5C, CHR ''u'', CHR ''0'', CHR ''0'',
              hex_digit (of_char c div 16), hex_digit (of_char c mod 16)]
      else [c])"

definition quote :: "string \<Rightarrow> string" where
  "quote s = [CHR 0x22] @ concat (map escape_char s) @ [CHR 0x22]"

function dec_nat :: "nat \<Rightarrow> string" where
  "dec_nat n = (if n < 10 then [char_of (48 + n)]
                else dec_nat (n div 10) @ [char_of (48 + n mod 10)])"
  by pat_completeness auto
termination
  by (relation "measure id") auto

declare dec_nat.simps [simp del]

definition dec_int :: "int \<Rightarrow> string" where
  "dec_int i = (if i < 0 then CHR ''-'' # dec_nat (nat (- i)) else dec_nat (nat i))"

fun join :: "string list \<Rightarrow> string" where
  "join [] = []"
| "join [x] = x"
| "join (x # y # ys) = x @ '','' @ join (y # ys)"

text \<open>
  \<^verbatim>\<open>JSON.stringify(v)\<close>: \<open>None\<close> is the result \<^verbatim>\<open>undefined\<close>, which it gives
  for \<^verbatim>\<open>undefined\<close> and for a function. Inside an array such an element is
  written \<^verbatim>\<open>null\<close>; inside an object the property is left out.
\<close>

fun stringify :: "jsval \<Rightarrow> string option"
  and stringify_elems :: "jsval list \<Rightarrow> string list"
  and stringify_props :: "(string \<times> jsval) list \<Rightarrow> string list" where
  "stringify JUndefined = None"
| "stringify JNull = Some ''null''"
| "stringify (JBool b) = Some (if b then ''true'' else ''false'')"
| "stringify (JNum n) = Some (dec_int n)"
| "stringify (JStr s) = Some (quote s)"
| "stringify (JFun f returns) = None"
| "stringify (JArr xs) = Some (''['' @ join (stringify_elems xs) @ '']'')"
| "stringify (JObj ps) = Some (''{'' @ join (stringify_props ps) @ ''}'')"
| "stringify_elems [] = []"
| "stringify_elems (x # xs) =
     (case stringify x of None \<Rightarrow> ''null'' | Some t \<Rightarrow> t) # stringify_elems xs"
| "stringify_props [] = []"
| "stringify_props ((k, v) # ps) =
     (case stringify v of
        None \<Rightarrow> stringify_props ps
      | Some t \<Rightarrow> (quote k @ '':'' @ t) # stringify_props ps)"

section \<open>The change comparator\<close>

definition notFunction :: "jsval \<Rightarrow> bool" where
  "notFunction o' = (typeof o' \<noteq> TFunction)"

definition bothValueNotFunction :: "jsval \<Rightarrow> jsval \<Rightarrow> bool" where
  "bothValueNotFunction a b = (notFunction a \<and> notFunction b)"

fun isObject :: "jsval \<Rightarrow> bool" where
  "isObject (JObj ps) = True"
| "isObject v = False"

definition nonOnbjectValueEquals :: "jsval \<Rightarrow> jsval \<Rightarrow> bool" where
  "nonOnbjectValueEquals a b = (stringify a = stringify b)"

text \<open>The \<^verbatim>\<open>for (let key in a)\<close> loop of \<^verbatim>\<open>isShallowDiff\<close>, over the keys still
  to be visited: it returns at the first key for which \<^verbatim>\<open>a.hasOwnProperty(key)\<close>
  holds, and an exception of that call ends it.\<close>

fun isShallowDiff_loop :: "string list \<Rightarrow> jsval \<Rightarrow> jsval \<Rightarrow> error + bool" where
  "isShallowDiff_loop [] a b = Inr False"
| "isShallowDiff_loop (key # keys) a b =
     (case hasOwnProperty a key of
        Inl e \<Rightarrow> Inl e
      | Inr own \<Rightarrow>
          if own then
            (let valueA = get_prop a key; valueB = get_prop b key in
             if bothValueNotFunction valueA valueB \<and> (\<not> isObject valueA \<and> \<not> isObject valueB)
             then Inr (\<not> nonOnbjectValueEquals valueA valueB)
             else Inr True)
          else isShallowDiff_loop keys a b)"

definition isShallowDiff :: "jsval \<Rightarrow> jsval \<Rightarrow> error + bool" where
  "isShallowDiff a b =
     (if length (Object_keys a) \<noteq> length (Object_keys b) then Inr True
      else isShallowDiff_loop (Object_keys a) a b)"

type_synonym compare_case = "jsval \<Rightarrow> jsval \<Rightarrow> bool"
type_synonym compare_strategy = "jsval \<Rightarrow> jsval \<Rightarrow> error + bool"

definition compareStrategies :: "(compare_case \<times> compare_strategy) list" where
  "compareStrategies =
     [(\<lambda>a b. isObject a \<and> isObject b, \<lambda>a b. isShallowDiff a b),
      (\<lambda>a b. typeof a \<noteq> typeof b, \<lambda>a b. Inr True),
      (\<lambda>a b. typeof a = TFunction \<and> typeof b = TFunction, \<lambda>a b. Inr True),
      (\<lambda>a b. True, \<lambda>a b. Inr (stringify a \<noteq> stringify b))]"

text \<open>The \<^verbatim>\<open>some\<close> loop: the handler of the first strategy whose case matches,
  \<open>None\<close> while \<^verbatim>\<open>compareHandler\<close> is still \<^verbatim>\<open>null\<close>.\<close>

fun some_strategy ::
  "(compare_case \<times> compare_strategy) list \<Rightarrow> jsval \<Rightarrow> jsval \<Rightarrow> compare_strategy option" where
  "some_strategy [] a b = None"
| "some_strategy ((compareCase, compareStrategy) # rest) a b =
     (if compareCase a b then Some compareStrategy else some_strategy rest a b)"

definition compareValuesDiff :: "jsval \<Rightarrow> jsval \<Rightarrow> error + bool" where
  "compareValuesDiff a b =
     (case some_strategy compareStrategies a b of
        None \<Rightarrow> Inl NotCallableError
      | Some compareHandler \<Rightarrow> compareHandler a b)"

text \<open>
  The comparator as the specification words it, first matching rule winning. The values
  under the first key are what the two objects give when read under it. Rule 1 names the
  first key; for two objects without keys there is none to inspect and no difference is
  found.
\<close>

definition reference_diff :: "jsval \<Rightarrow> jsval \<Rightarrow> bool" where
  "reference_diff a b =
     (if isObject a \<and> isObject b then
        (if length (Object_keys a) \<noteq> length (Object_keys b) then True
         else (case Object_keys a of
                 [] \<Rightarrow> False
               | k # ks \<Rightarrow>
                   if typeof (get_prop a k) \<noteq> TFunction \<and> typeof (get_prop b k) \<noteq> TFunction
                      \<and> \<not> isObject (get_prop a k) \<and> \<not> isObject (get_prop b k)
                   then stringify (get_prop a k) \<noteq> stringify (get_prop b k)
                   else True))
      else if typeof a \<noteq> typeof b then True
      else if typeof a = TFunction \<and> typeof b = TFunction then True
      else stringify a \<noteq> stringify b)"

section \<open>The store\<close>

definition SELECTOR_PREFIX :: string where
  "SELECTOR_PREFIX = ''selector::''"

text \<open>\<^verbatim>\<open>if (selectorName.indexOf(SELECTOR_PREFIX) !== 0) selectorName = SELECTOR_PREFIX + selectorName\<close>\<close>

definition qualify :: "string \<Rightarrow> string" where
  "qualify selectorName =
     (if \<not> prefix SELECTOR_PREFIX selectorName then SELECTOR_PREFIX @ selectorName
      else selectorName)"

text \<open>
  A subscription handle is the listener object the subscribe call returns. Its
  \<^verbatim>\<open>remove\<close> closure holds the name of the list it was pushed into; the natural
  number is the identity of the object.

  A listener's \<^verbatim>\<open>onChange\<close> is host code. The model gives it an identifier and the
  handles on which its body calls \<^verbatim>\<open>remove()\<close>; every invocation is recorded with
  its arguments in \<open>calls\<close>. Bodies that call back into \<^verbatim>\<open>update\<close>,
  \<^verbatim>\<open>defineSelector\<close> or a subscribe operation are not modelled. A transformer is a
  pure function of the dependency values.
\<close>

datatype handle = DataHandle string nat | SelectorHandle string nat

datatype callback = Callback (cb_id: nat) (cb_removes: "handle list")

record listener =
  l_id :: nat
  onChange :: callback

datatype event = Invoke listener "jsval list"

text \<open>
  The three tables of the store are objects keyed by name; names are taken to be ordinary
  keys (not \<^verbatim>\<open>__proto__\<close>), so each table is a map.
  \<open>item_data\<close>, \<open>item_selectors\<close> are the fields \<^verbatim>\<open>_data\<close>, \<^verbatim>\<open>_selectors\<close> of an
  entry of \<^verbatim>\<open>this.store\<close>; \<open>sel_transformer\<close>, \<open>sel_deps\<close>, \<open>sel_listeners\<close> are
  \<^verbatim>\<open>_transformer\<close>, \<^verbatim>\<open>_deps\<close>, \<^verbatim>\<open>_listeners\<close> of an entry of
  \<^verbatim>\<open>this.selectors\<close>. The \<^verbatim>\<open>_removed\<close> flag of a listener object is shared by
  every array that holds the object, so it lives in the state: \<open>removed\<close> is the set of
  identities whose flag is set. \<open>next_id\<close> is the identity of the next listener object.
\<close>

record store_item =
  item_data :: jsval
  item_selectors :: "string list"

record selector_entry =
  sel_transformer :: "jsval list \<Rightarrow> jsval"
  sel_deps :: "string list"
  sel_listeners :: "listener list"

record data_store =
  store :: "string \<rightharpoonup> store_item"
  listeners :: "string \<rightharpoonup> listener list"
  selectors :: "string \<rightharpoonup> selector_entry"
  removed :: "nat set"
  next_id :: nat
  calls :: "event list"

definition constructor :: data_store where
  "constructor = \<lparr>store = Map.empty, listeners = Map.empty, selectors = Map.empty,
                   removed = {}, next_id = 0, calls = []\<rparr>"

text \<open>An operation leaves the state it reached when it throws: the result is the error,
  if any, and the state.\<close>

type_synonym outcome = "error option \<times> data_store"

text \<open>
  \<^verbatim>\<open>Array.prototype.forEach\<close> visits the elements the array has when the loop starts:
  an element pushed meanwhile is not visited, and the store never changes or deletes an
  element of an array in place (\<^verbatim>\<open>remove()\<close> assigns a new, filtered array). So the
  loop goes over the list as it was; an exception in the body ends it.
\<close>

fun forEach :: "('a \<Rightarrow> data_store \<Rightarrow> outcome) \<Rightarrow> 'a list \<Rightarrow> data_store \<Rightarrow> outcome" where
  "forEach f [] s = (None, s)"
| "forEach f (x # xs) s =
     (case f x s of
        (Some e, s') \<Rightarrow> (Some e, s')
      | (None, s') \<Rightarrow> forEach f xs s')"

text \<open>\<^verbatim>\<open>listener.remove()\<close>\<close>

fun remove :: "handle \<Rightarrow> data_store \<Rightarrow> outcome" where
  "remove (DataHandle targetName i) s =
     (let s1 = s\<lparr>removed := insert i (removed s)\<rparr> in
      case listeners s1 targetName of
        None \<Rightarrow> (Some UndefinedAccessError, s1)
      | Some ls \<Rightarrow>
          (None, s1\<lparr>listeners := (listeners s1)
                      (targetName \<mapsto> filter (\<lambda>l. l_id l \<notin> removed s1) ls)\<rparr>))"
| "remove (SelectorHandle selectorName i) s =
     (let s1 = s\<lparr>removed := insert i (removed s)\<rparr> in
      case selectors s1 selectorName of
        None \<Rightarrow> (Some UndefinedAccessError, s1)
      | Some entry \<Rightarrow>
          (None, s1\<lparr>selectors := (selectors s1)
                      (selectorName \<mapsto>
                         entry\<lparr>sel_listeners :=
                                  filter (\<lambda>l. l_id l \<notin> removed s1) (sel_listeners entry)\<rparr>)\<rparr>))"

text \<open>One call \<^verbatim>\<open>onChange(...args)\<close> of a listener's callback.\<close>

definition invoke :: "listener \<Rightarrow> jsval list \<Rightarrow> data_store \<Rightarrow> outcome" where
  "invoke l args s =
     forEach remove (cb_removes (onChange l)) (s\<lparr>calls := calls s @ [Invoke l args]\<rparr>)"

definition initDataStoreItem :: "string \<Rightarrow> jsval \<Rightarrow> data_store \<Rightarrow> data_store" where
  "initDataStoreItem name value s =
     (if store s name = None then
        s\<lparr>store := (store s)(name \<mapsto> \<lparr>item_data = value, item_selectors = []\<rparr>),
          listeners := (listeners s)(name \<mapsto> [])\<rparr>
      else s)"

definition placeholder :: selector_entry where
  "placeholder = \<lparr>sel_transformer = (\<lambda>args. JUndefined), sel_deps = [], sel_listeners = []\<rparr>"

definition initDataStore :: "(string \<times> jsval) list \<Rightarrow> string list \<Rightarrow> data_store \<Rightarrow> data_store" where
  "initDataStore data sels s =
     fold (\<lambda>selectorName s'.
             s'\<lparr>selectors := (selectors s')(qualify selectorName \<mapsto> placeholder)\<rparr>)
          sels
          (fold (\<lambda>(name, initialValue) s'. initDataStoreItem name initialValue s') data s)"

text \<open>\<^verbatim>\<open>_deps.map((dep) => this.store[dep]._data)\<close>\<close>

fun depData :: "data_store \<Rightarrow> string list \<Rightarrow> error + jsval list" where
  "depData s [] = Inr []"
| "depData s (dep # deps) =
     (case store s dep of
        None \<Rightarrow> Inl UndefinedAccessError
      | Some item \<Rightarrow>
          (case depData s deps of
             Inl e \<Rightarrow> Inl e
           | Inr vs \<Rightarrow> Inr (item_data item # vs)))"

definition getSelector :: "data_store \<Rightarrow> string \<Rightarrow> error + jsval" where
  "getSelector s name =
     (case selectors s name of
        None \<Rightarrow> Inl UndefinedSelectorError
      | Some entry \<Rightarrow>
          (case depData s (sel_deps entry) of
             Inl e \<Rightarrow> Inl e
           | Inr vs \<Rightarrow> Inr (sel_transformer entry vs)))"

definition get :: "data_store \<Rightarrow> string \<Rightarrow> error + jsval" where
  "get s name =
     (if prefix SELECTOR_PREFIX name then getSelector s name
      else (case store s name of
              None \<Rightarrow> Inl NotInitializedError
            | Some item \<Rightarrow> Inr (item_data item)))"

text \<open>The body of \<^verbatim>\<open>depSelectors.forEach\<close> in \<^verbatim>\<open>update\<close>: the selector's listeners,
  each called with \<^verbatim>\<open>this.getSelector(selectorName)\<close>.\<close>

definition notify_selector :: "string \<Rightarrow> data_store \<Rightarrow> outcome" where
  "notify_selector selectorName s =
     (case selectors s selectorName of
        None \<Rightarrow> (Some UndefinedAccessError, s)
      | Some entry \<Rightarrow>
          forEach (\<lambda>l s'. case getSelector s' selectorName of
                             Inl e \<Rightarrow> (Some e, s')
                           | Inr v \<Rightarrow> invoke l [v] s')
                  (sel_listeners entry) s)"

text \<open>\<^verbatim>\<open>update\<close>. \<open>depSelectors\<close> is the dependent list read before the comparison;
  no listener body of the model changes it.\<close>

definition update :: "string \<Rightarrow> jsval \<Rightarrow> data_store \<Rightarrow> outcome" where
  "update name data s0 =
     (let s = initDataStoreItem name JUndefined s0 in
      case store s name of
        None \<Rightarrow> (Some UndefinedAccessError, s)
      | Some item \<Rightarrow>
          (let prevData = item_data item; depSelectors = item_selectors item in
           case compareValuesDiff data prevData of
             Inl e \<Rightarrow> (Some e, s)
           | Inr diff \<Rightarrow>
               if \<not> diff then (None, s)
               else
                 (let s1 = s\<lparr>store := (store s)(name \<mapsto> item\<lparr>item_data := data\<rparr>)\<rparr> in
                  case listeners s1 name of
                    None \<Rightarrow> (Some UndefinedAccessError, s1)
                  | Some ls \<Rightarrow>
                      (case forEach (\<lambda>l. invoke l [data, prevData]) ls s1 of
                         (Some e, s2) \<Rightarrow> (Some e, s2)
                       | (None, s2) \<Rightarrow> forEach notify_selector depSelectors s2))))"

text \<open>\<^verbatim>\<open>depNames\<close> of \<^verbatim>\<open>defineSelector\<close>: an array of names, or one name.\<close>

datatype dep_names = DepArray "string list" | DepSingle string

text \<open>\<^verbatim>\<open>if (!Array.isArray(depNames)) depNames = [depNames]\<close>\<close>

fun as_array :: "dep_names \<Rightarrow> string list" where
  "as_array (DepArray ds) = ds"
| "as_array (DepSingle d) = [d]"

text \<open>The body of \<^verbatim>\<open>depNames.forEach\<close> in \<^verbatim>\<open>defineSelector\<close>.\<close>

definition register_dep :: "string \<Rightarrow> string \<Rightarrow> data_store \<Rightarrow> outcome" where
  "register_dep selectorName dep s =
     (case store s dep of
        None \<Rightarrow> (Some UndefinedAccessError, s)
      | Some storeItem \<Rightarrow>
          if selectorName \<notin> set (item_selectors storeItem) then
            (None, s\<lparr>store := (store s)
                        (dep \<mapsto> storeItem\<lparr>item_selectors :=
                                              item_selectors storeItem @ [selectorName]\<rparr>)\<rparr>)
          else (None, s))"

definition defineSelector ::
  "jsval \<Rightarrow> dep_names \<Rightarrow> (jsval list \<Rightarrow> jsval) \<Rightarrow> data_store \<Rightarrow> outcome" where
  "defineSelector selectorName depNames transformer s =
     (case selectorName of
        JStr name \<Rightarrow>
          (let qualified = qualify name;
               deps = as_array depNames in
           case forEach (register_dep qualified) deps s of
             (Some e, s1) \<Rightarrow> (Some e, s1)
           | (None, s1) \<Rightarrow>
               (None, s1\<lparr>selectors := (selectors s1)
                           (qualified \<mapsto> \<lparr>sel_transformer = transformer, sel_deps = deps,
                                          sel_listeners = []\<rparr>)\<rparr>))
      | _ \<Rightarrow> (Some InvalidArgumentError, s))"

text \<open>The subscribe operations return the handle, or the error.\<close>

definition addSelectorListener ::
  "string \<Rightarrow> callback \<Rightarrow> bool \<Rightarrow> data_store \<Rightarrow> (error + handle) \<times> data_store" where
  "addSelectorListener selectorName cb executeImmediately s =
     (let qualified = qualify selectorName;
          l = \<lparr>l_id = next_id s, onChange = cb\<rparr> in
      case selectors s qualified of
        None \<Rightarrow> (Inl UndefinedAccessError, s)
      | Some entry \<Rightarrow>
          (let s1 = s\<lparr>selectors := (selectors s)
                         (qualified \<mapsto> entry\<lparr>sel_listeners := sel_listeners entry @ [l]\<rparr>),
                      removed := removed s - {next_id s},
                      next_id := Suc (next_id s)\<rparr> in
           if executeImmediately then
             (case getSelector s1 qualified of
                Inl e \<Rightarrow> (Inl e, s1)
              | Inr v \<Rightarrow>
                  (case invoke l [v] s1 of
                     (Some e, s2) \<Rightarrow> (Inl e, s2)
                   | (None, s2) \<Rightarrow> (Inr (SelectorHandle qualified (l_id l)), s2)))
           else (Inr (SelectorHandle qualified (l_id l)), s1)))"

definition addDataListener ::
  "string \<Rightarrow> callback \<Rightarrow> bool \<Rightarrow> data_store \<Rightarrow> (error + handle) \<times> data_store" where
  "addDataListener targetName cb executeImmediately s0 =
     (let s = initDataStoreItem targetName JUndefined s0;
          l = \<lparr>l_id = next_id s, onChange = cb\<rparr> in
      case listeners s targetName of
        None \<Rightarrow> (Inl UndefinedAccessError, s)
      | Some ls \<Rightarrow>
          (let s1 = s\<lparr>listeners := (listeners s)(targetName \<mapsto> ls @ [l]),
                      removed := removed s - {next_id s},
                      next_id := Suc (next_id s)\<rparr> in
           if executeImmediately then
             (case store s1 targetName of
                None \<Rightarrow> (Inl UndefinedAccessError, s1)
              | Some item \<Rightarrow>
                  (case invoke l [item_data item] s1 of
                     (Some e, s2) \<Rightarrow> (Inl e, s2)
                   | (None, s2) \<Rightarrow> (Inr (DataHandle targetName (l_id l)), s2)))
           else (Inr (DataHandle targetName (l_id l)), s1)))"

subsection \<open>Sequences of calls\<close>

text \<open>A caller's use of the store: the public operations, and \<^verbatim>\<open>remove()\<close> on a
  handle. A caller that catches an exception goes on from the state the call left.\<close>

datatype call =
    CInitDataStore "(string \<times> jsval) list" "string list"
  | CUpdate string jsval
  | CDefineSelector jsval dep_names "jsval list \<Rightarrow> jsval"
  | CAddSelectorListener string callback bool
  | CAddDataListener string callback bool
  | CRemove handle

fun perform :: "call \<Rightarrow> data_store \<Rightarrow> data_store" where
  "perform (CInitDataStore data sels) s = initDataStore data sels s"
| "perform (CUpdate name v) s = snd (update name v s)"
| "perform (CDefineSelector name deps t) s = snd (defineSelector name deps t s)"
| "perform (CAddSelectorListener name cb imm) s = snd (addSelectorListener name cb imm s)"
| "perform (CAddDataListener name cb imm) s = snd (addDataListener name cb imm s)"
| "perform (CRemove h) s = snd (remove h s)"

definition perform_all :: "call list \<Rightarrow> data_store \<Rightarrow> data_store" where
  "perform_all cs s = fold perform cs s"

subsection \<open>Listener lists and reachable states\<close>

text \<open>The listener lists of the store: one for each value name, one inside each selector
  entry. A handle names the list its listener was pushed into.\<close>

datatype slot = DataSlot string | SelectorSlot string

fun list_at :: "data_store \<Rightarrow> slot \<Rightarrow> listener list" where
  "list_at s (DataSlot n) = (case listeners s n of None \<Rightarrow> [] | Some ls \<Rightarrow> ls)"
| "list_at s (SelectorSlot q) =
     (case selectors s q of None \<Rightarrow> [] | Some entry \<Rightarrow> sel_listeners entry)"

fun handle_of :: "slot \<Rightarrow> listener \<Rightarrow> handle" where
  "handle_of (DataSlot n) l = DataHandle n (l_id l)"
| "handle_of (SelectorSlot q) l = SelectorHandle q (l_id l)"

fun target_exists :: "data_store \<Rightarrow> handle \<Rightarrow> bool" where
  "target_exists s (DataHandle n i) = (listeners s n \<noteq> None)"
| "target_exists s (SelectorHandle q i) = (selectors s q \<noteq> None)"

text \<open>A listener whose body calls no \<^verbatim>\<open>remove()\<close>.\<close>

definition no_removes :: "listener \<Rightarrow> bool" where
  "no_removes l = (cb_removes (onChange l) = [])"

text \<open>The value \<^verbatim>\<open>getSelector\<close> returns, where it returns one.\<close>

definition computed :: "data_store \<Rightarrow> string \<Rightarrow> jsval" where
  "computed s q = (case getSelector s q of Inl e \<Rightarrow> JUndefined | Inr v \<Rightarrow> v)"

text \<open>The recorded invocations of the listener with identity \<open>i\<close>.\<close>

fun invoked :: "nat \<Rightarrow> event \<Rightarrow> bool" where
  "invoked i (Invoke l args) = (l_id l = i)"

definition invocations_of :: "nat \<Rightarrow> event list \<Rightarrow> event list" where
  "invocations_of i evs = filter (invoked i) evs"

text \<open>The states of the store: that of the constructor, and those any sequence of calls
  leads to.\<close>

inductive reachable :: "data_store \<Rightarrow> bool" where
  reachable_constructor: "reachable constructor"
| reachable_perform: "reachable s \<Longrightarrow> reachable (perform c s)"

text \<open>A value entry with a selector in its dependent list, added at the end when it is not
  there; and the dependencies that come before the first one without a value entry.\<close>

definition add_dependent :: "string \<Rightarrow> store_item \<Rightarrow> store_item" where
  "add_dependent q item =
     (if q \<in> set (item_selectors item) then item
      else item\<lparr>item_selectors := item_selectors item @ [q]\<rparr>)"

definition known_prefix :: "data_store \<Rightarrow> string list \<Rightarrow> string list" where
  "known_prefix s deps = takeWhile (\<lambda>d. store s d \<noteq> None) deps"

subsection \<open>Auxiliary notions\<close>

definition sel_core :: "selector_entry \<Rightarrow> (jsval list \<Rightarrow> jsval) \<times> string list" where
  "sel_core entry = (sel_transformer entry, sel_deps entry)"

text \<open>All a listener body does to the state: listeners leave their lists.\<close>

definition shrinks :: "data_store \<Rightarrow> data_store \<Rightarrow> bool" where
  "shrinks s s' \<longleftrightarrow>
     store s' = store s \<and> next_id s' = next_id s \<and>
     (\<forall>n. (listeners s' n = None) = (listeners s n = None)) \<and>
     (\<forall>q. map_option sel_core (selectors s' q) = map_option sel_core (selectors s q)) \<and>
     (\<forall>k. set (list_at s' k) \<subseteq> set (list_at s k))"

text \<open>No listener has joined a list, and the events recorded meanwhile are invocations
  of listeners of the lists of \<open>s\<close>.\<close>

definition listed :: "data_store \<Rightarrow> event \<Rightarrow> bool" where
  "listed s ev \<longleftrightarrow> (\<exists>l args k. ev = Invoke l args \<and> l \<in> set (list_at s k))"

definition narrows :: "data_store \<Rightarrow> data_store \<Rightarrow> bool" where
  "narrows s s' \<longleftrightarrow>
     next_id s' = next_id s \<and> (\<forall>k. set (list_at s' k) \<subseteq> set (list_at s k)) \<and>
     (\<exists>evs. calls s' = calls s @ evs \<and> (\<forall>ev \<in> set evs. listed s ev))"

definition notifies :: "data_store \<Rightarrow> data_store \<Rightarrow> bool" where
  "notifies s s' \<longleftrightarrow> shrinks s s' \<and> narrows s s'"

text \<open>One listener, with the next identity, has joined one list.\<close>

definition joins :: "data_store \<Rightarrow> data_store \<Rightarrow> bool" where
  "joins s s' \<longleftrightarrow>
     next_id s' = Suc (next_id s) \<and> calls s' = calls s \<and>
     (\<exists>k. \<forall>k' l. l \<in> set (list_at s' k')
        \<longrightarrow> l \<in> set (list_at s k') \<or> (k' = k \<and> l_id l = next_id s))"

text \<open>What holds in every reachable state: a value entry has a listener list and the
  dependencies of a selector have value entries; the identities in the lists have been
  handed out and none is in two lists.\<close>

definition dom_inv :: "data_store \<Rightarrow> bool" where
  "dom_inv s \<longleftrightarrow>
     (\<forall>n. store s n \<noteq> None \<longrightarrow> listeners s n \<noteq> None) \<and>
     (\<forall>q entry d. selectors s q = Some entry \<longrightarrow> d \<in> set (sel_deps entry)
        \<longrightarrow> store s d \<noteq> None)"

definition ids_inv :: "data_store \<Rightarrow> bool" where
  "ids_inv s \<longleftrightarrow>
     (\<forall>k l. l \<in> set (list_at s k) \<longrightarrow> l_id l < next_id s) \<and>
     (\<forall>k k' l l'. l \<in> set (list_at s k) \<longrightarrow> l' \<in> set (list_at s k')
        \<longrightarrow> l_id l = l_id l' \<longrightarrow> k = k')"

text \<open>The identity \<open>i\<close> has been handed out, and only the lists of \<open>K\<close> may hold it.\<close>

definition confined :: "nat \<Rightarrow> slot set \<Rightarrow> data_store \<Rightarrow> bool" where
  "confined i K s \<longleftrightarrow>
     i < next_id s \<and> (\<forall>k l. l \<in> set (list_at s k) \<longrightarrow> l_id l = i \<longrightarrow> k \<in> K)"

text \<open>A step that records no invocation, keeps the lists the handles name, and lets no
  listener into a list that could not hold it.\<close>

definition silent :: "data_store \<Rightarrow> data_store \<Rightarrow> bool" where
  "silent s s' \<longleftrightarrow>
     calls s' = calls s \<and> (\<forall>h. target_exists s h \<longrightarrow> target_exists s' h) \<and>
     (\<forall>i K. confined i K s \<longrightarrow> confined i K s')"

text \<open>From the \<open>n\<close>-th recorded event on: the handles in the body of \<open>l0\<close> name existing
  lists, the identity \<open>i\<close> is in no list but \<open>k\<close>, and in none once \<open>l0\<close> has been
  invoked.\<close>

definition removing :: "nat \<Rightarrow> slot \<Rightarrow> listener \<Rightarrow> nat \<Rightarrow> data_store \<Rightarrow> bool" where
  "removing i k l0 n t \<longleftrightarrow>
     (\<forall>h \<in> set (cb_removes (onChange l0)). target_exists t h) \<and>
     n \<le> length (calls t) \<and> confined i {k} t \<and>
     ((\<exists>a. Invoke l0 a \<in> set (drop n (calls t))) \<longrightarrow> confined i {} t)"








subsection \<open>Example stores\<close>

text \<open>A value \<open>x\<close> with the selector \<open>double\<close> over it, and one listener subscribed
  to the selector.\<close>

definition doubled :: "jsval list \<Rightarrow> jsval" where
  "doubled vs = (case vs of [JNum x] \<Rightarrow> JNum (2 * x) | _ \<Rightarrow> JUndefined)"

definition store_with_double :: data_store where
  "store_with_double =
     perform (CAddSelectorListener ''double'' (Callback 7 []) False)
       (perform (CDefineSelector (JStr ''double'') (DepArray [''x'']) doubled)
          (perform (CInitDataStore [(''x'', JNum 1)] []) constructor))"

text \<open>The same with two listeners more on the selector and two on \<open>x\<close>; the body of
  the first listener of \<open>x\<close> removes the second and itself, the body of the second
  listener of the selector removes the third.\<close>

definition observed_store :: data_store where
  "observed_store =
     perform (CAddSelectorListener ''double'' (Callback 3 []) False)
       (perform (CAddSelectorListener ''double''
                   (Callback 2 [SelectorHandle ''selector::double'' 4]) False)
          (perform (CAddDataListener ''x'' (Callback 1 []) False)
             (perform (CAddDataListener ''x''
                         (Callback 0 [DataHandle ''x'' 2, DataHandle ''x'' 1]) False)
                store_with_double)))"





text \<open>The first store with two listeners on \<open>x\<close> whose bodies remove nothing.\<close>

definition watched_store :: data_store where
  "watched_store =
     perform (CAddDataListener ''x'' (Callback 1 []) False)
       (perform (CAddDataListener ''x'' (Callback 0 []) False) store_with_double)"

text \<open>A value \<open>x\<close> holding an object of two keys, with one listener.\<close>

definition first_key_store :: data_store where
  "first_key_store =
     perform (CAddDataListener ''x'' (Callback 0 []) False)
       (perform (CInitDataStore [(''x'', JObj [(''a'', JNum 1), (''b'', JNum 1)])] [])
          constructor)"

section \<open>Properties\<close>

subsection \<open>Listener bodies only drop listeners\<close>

lemma list_at_calls [simp]: "list_at (s\<lparr>calls := c\<rparr>) k = list_at s k"
  by (cases k) simp_all

lemma shrinks_refl: "shrinks s s"
  by (simp add: shrinks_def)

lemma shrinks_trans: "shrinks s s' \<Longrightarrow> shrinks s' s'' \<Longrightarrow> shrinks s s''"
  unfolding shrinks_def by (metis (no_types, lifting) subset_trans)

lemma shrinks_calls_upd: "shrinks s (s\<lparr>calls := c\<rparr>)"
  by (simp add: shrinks_def)

lemma shrinks_selectors_None: "shrinks s s' \<Longrightarrow> (selectors s' q = None) = (selectors s q = None)"
  unfolding shrinks_def by (metis map_option_is_None)

lemma target_exists_shrinks: "shrinks s s' \<Longrightarrow> target_exists s' h = target_exists s h"
proof (cases h)
  case (DataHandle n i)
  assume "shrinks s s'"
  then have "(listeners s' n = None) = (listeners s n = None)" by (simp add: shrinks_def)
  then show ?thesis using DataHandle by simp
next
  case (SelectorHandle q i)
  assume "shrinks s s'"
  then show ?thesis using SelectorHandle by (simp add: shrinks_selectors_None)
qed

lemma remove_calls: "calls (snd (remove h s)) = calls s"
  by (cases h) (auto simp: Let_def split: option.splits)

lemma remove_shrinks: "shrinks s (snd (remove h s))"
proof (cases h)
  case (DataHandle n i)
  have "set (list_at (snd (remove h s)) k) \<subseteq> set (list_at s k)" for k
    using DataHandle by (cases k) (auto simp: Let_def split: option.splits)
  then show ?thesis using DataHandle
    by (auto simp: shrinks_def Let_def split: option.splits)
next
  case (SelectorHandle q i)
  have "set (list_at (snd (remove h s)) k) \<subseteq> set (list_at s k)" for k
    using SelectorHandle by (cases k) (auto simp: Let_def split: option.splits)
  then show ?thesis using SelectorHandle
    by (auto simp: shrinks_def Let_def sel_core_def split: option.splits)
qed

lemma remove_ok: "target_exists s h \<Longrightarrow> fst (remove h s) = None"
  by (cases h) (auto simp: Let_def split: option.splits)

text \<open>A loop whose body keeps a relation to the starting state keeps it.\<close>

lemma forEach_keeps:
  assumes "\<And>x s. x \<in> set xs \<Longrightarrow> R s \<Longrightarrow> R (snd (f x s))" and "R s"
  shows "R (snd (forEach f xs s))"
  using assms
proof (induction xs arbitrary: s)
  case Nil
  then show ?case by simp
next
  case (Cons x xs)
  have 1: "R (snd (f x s))" using Cons.prems by simp
  have 2: "R (snd (forEach f xs (snd (f x s))))"
    using Cons.IH[of "snd (f x s)"] Cons.prems(1) 1 by simp
  show ?case
  proof (cases "f x s")
    case (Pair r s')
    then show ?thesis using 1 2 by (cases r) simp_all
  qed
qed

lemma forEach_ok:
  assumes "\<And>x s. x \<in> set xs \<Longrightarrow> R s \<Longrightarrow> R (snd (f x s)) \<and> fst (f x s) = None" and "R s"
  shows "fst (forEach f xs s) = None"
  using assms
proof (induction xs arbitrary: s)
  case Nil
  then show ?case by simp
next
  case (Cons x xs)
  have 1: "R (snd (f x s))" "fst (f x s) = None" using Cons.prems by simp_all
  have 2: "fst (forEach f xs (snd (f x s))) = None"
    using Cons.IH[of "snd (f x s)"] Cons.prems(1) 1 by simp
  show ?case
  proof (cases "f x s")
    case (Pair r s')
    then show ?thesis using 1 2 by simp
  qed
qed

lemma forEach_remove_calls: "calls (snd (forEach remove hs s)) = calls s"
  using forEach_keeps[where R = "\<lambda>s'. calls s' = calls s" and f = remove and xs = hs and s = s]
  by (simp add: remove_calls)

lemma forEach_remove_shrinks: "shrinks s (snd (forEach remove hs s))"
  using forEach_keeps[where R = "shrinks s" and f = remove and xs = hs and s = s]
  by (meson remove_shrinks shrinks_refl shrinks_trans)

lemma forEach_remove_ok:
  assumes "\<forall>h \<in> set hs. target_exists s h"
  shows "fst (forEach remove hs s) = None"
proof (rule forEach_ok[where R = "shrinks s"])
  fix h s' assume "h \<in> set hs" "shrinks s s'"
  then show "shrinks s (snd (remove h s')) \<and> fst (remove h s') = None"
    using assms remove_shrinks[of s' h] remove_ok[of s' h]
    by (metis shrinks_trans target_exists_shrinks)
qed (rule shrinks_refl)

lemma invoke_calls: "calls (snd (invoke l args s)) = calls s @ [Invoke l args]"
  by (simp add: invoke_def forEach_remove_calls)

lemma invoke_shrinks: "shrinks s (snd (invoke l args s))"
  unfolding invoke_def
  by (rule shrinks_trans[OF shrinks_calls_upd forEach_remove_shrinks])

lemma invoke_ok:
  "\<forall>h \<in> set (cb_removes (onChange l)). target_exists s h \<Longrightarrow> fst (invoke l args s) = None"
  unfolding invoke_def
  by (rule forEach_remove_ok) (simp add: target_exists_shrinks[OF shrinks_calls_upd])

subsection \<open>Reading depends on values and selector definitions only\<close>

lemma depData_cong: "store s' = store s \<Longrightarrow> depData s' ds = depData s ds"
  by (induction ds) (simp_all split: option.splits)

lemma getSelector_cong:
  assumes "store s' = store s"
    and "map_option sel_core (selectors s' q) = map_option sel_core (selectors s q)"
  shows "getSelector s' q = getSelector s q"
proof (cases "selectors s q")
  case None
  then have "selectors s' q = None" using assms(2) by simp
  then show ?thesis using None by (simp add: getSelector_def)
next
  case (Some e)
  then obtain e' where e': "selectors s' q = Some e'" "sel_core e' = sel_core e"
    using assms(2) by (cases "selectors s' q") auto
  then show ?thesis using Some depData_cong[OF assms(1)]
    by (simp add: getSelector_def sel_core_def split: sum.splits)
qed

lemma getSelector_shrinks: "shrinks s s' \<Longrightarrow> getSelector s' q = getSelector s q"
  by (rule getSelector_cong) (simp_all add: shrinks_def)

lemma getSelector_calls [simp]: "getSelector (s\<lparr>calls := c\<rparr>) q = getSelector s q"
  by (rule getSelector_cong) simp_all

lemma depData_ok: "\<forall>d \<in> set ds. store s d \<noteq> None \<Longrightarrow> \<exists>vs. depData s ds = Inr vs"
  by (induction ds) auto

lemma getSelector_ok:
  assumes "selectors s q = Some e" and "\<forall>d \<in> set (sel_deps e). store s d \<noteq> None"
  shows "\<exists>v. getSelector s q = Inr v"
  using assms depData_ok[OF assms(2)] by (auto simp: getSelector_def)

subsection \<open>Passes over listeners that remove nothing\<close>

lemma invoke_no_removes:
  "no_removes l \<Longrightarrow> invoke l args s = (None, s\<lparr>calls := calls s @ [Invoke l args]\<rparr>)"
  by (simp add: invoke_def no_removes_def)

lemma forEach_invoke_no_removes:
  "\<forall>l \<in> set ls. no_removes l \<Longrightarrow>
   forEach (\<lambda>l. invoke l args) ls s =
     (None, s\<lparr>calls := calls s @ map (\<lambda>l. Invoke l args) ls\<rparr>)"
  by (induction ls arbitrary: s) (simp_all add: invoke_no_removes)

lemma forEach_selector_listeners_no_removes:
  assumes "\<forall>l \<in> set ls. no_removes l" and "getSelector s q = Inr v"
  shows "forEach (\<lambda>l s'. case getSelector s' q of Inl e \<Rightarrow> (Some e, s') | Inr v \<Rightarrow> invoke l [v] s')
           ls s =
         (None, s\<lparr>calls := calls s @ map (\<lambda>l. Invoke l [v]) ls\<rparr>)"
  using assms by (induction ls arbitrary: s) (simp_all add: invoke_no_removes)

lemma notify_selector_no_removes:
  assumes "selectors s q = Some e" and "\<forall>l \<in> set (sel_listeners e). no_removes l"
    and "getSelector s q = Inr v"
  shows "notify_selector q s =
         (None, s\<lparr>calls := calls s @ map (\<lambda>l. Invoke l [v]) (sel_listeners e)\<rparr>)"
  using assms forEach_selector_listeners_no_removes[OF assms(2,3)]
  by (simp add: notify_selector_def)

lemma forEach_notify_selector_no_removes:
  assumes "\<forall>q \<in> set qs. \<exists>v. getSelector s q = Inr v"
    and "\<forall>q \<in> set qs. selectors s q \<noteq> None"
    and "\<forall>q \<in> set qs. \<forall>l \<in> set (list_at s (SelectorSlot q)). no_removes l"
  shows "forEach notify_selector qs s =
         (None, s\<lparr>calls := calls s @
             concat (map (\<lambda>q. map (\<lambda>l. Invoke l [computed s q])
                                 (list_at s (SelectorSlot q))) qs)\<rparr>)"
  using assms
proof (induction qs arbitrary: s)
  case Nil
  then show ?case by simp
next
  case (Cons q qs)
  from Cons.prems obtain e v where e: "selectors s q = Some e" and v: "getSelector s q = Inr v"
    by auto
  have nr: "\<forall>l \<in> set (sel_listeners e). no_removes l" using Cons.prems(3) e by simp
  let ?s1 = "s\<lparr>calls := calls s @ map (\<lambda>l. Invoke l [v]) (sel_listeners e)\<rparr>"
  have step: "notify_selector q s = (None, ?s1)"
    by (rule notify_selector_no_removes[OF e nr v])
  have "forEach notify_selector qs ?s1 =
         (None, ?s1\<lparr>calls := calls ?s1 @
             concat (map (\<lambda>q. map (\<lambda>l. Invoke l [computed ?s1 q])
                                 (list_at ?s1 (SelectorSlot q))) qs)\<rparr>)"
    using Cons.prems by (intro Cons.IH) simp_all
  then show ?case using step e v by (simp add: computed_def)
qed

subsection \<open>Lists under the updates of the state\<close>

lemma list_at_store [simp]: "list_at (s\<lparr>store := x\<rparr>) k = list_at s k"
  by (cases k) simp_all

lemma list_at_removed [simp]: "list_at (s\<lparr>removed := x\<rparr>) k = list_at s k"
  by (cases k) simp_all

lemma list_at_next_id [simp]: "list_at (s\<lparr>next_id := x\<rparr>) k = list_at s k"
  by (cases k) simp_all

lemma list_at_listeners_upd:
  "list_at (s\<lparr>listeners := m\<rparr>) k =
     (case k of DataSlot n \<Rightarrow> (case m n of None \<Rightarrow> [] | Some ls \<Rightarrow> ls)
              | SelectorSlot q \<Rightarrow> list_at s k)"
  by (cases k) simp_all

lemma list_at_selectors_upd:
  "list_at (s\<lparr>selectors := m\<rparr>) k =
     (case k of DataSlot n \<Rightarrow> list_at s k
              | SelectorSlot q \<Rightarrow> (case m q of None \<Rightarrow> [] | Some e \<Rightarrow> sel_listeners e))"
  by (cases k) simp_all

subsection \<open>The relations between states\<close>

lemma listedI: "l \<in> set (list_at s k) \<Longrightarrow> listed s (Invoke l args)"
  unfolding listed_def by blast

lemma listed_sublist:
  "\<forall>k. set (list_at s' k) \<subseteq> set (list_at s k) \<Longrightarrow> listed s' ev \<Longrightarrow> listed s ev"
  unfolding listed_def by blast

lemma narrows_refl: "narrows s s"
  by (simp add: narrows_def)

lemma narrows_trans:
  assumes "narrows s s'" and "narrows s' s''"
  shows "narrows s s''"
proof -
  from assms obtain evs evs' where
    1: "calls s' = calls s @ evs" "\<forall>ev \<in> set evs. listed s ev" and
    2: "calls s'' = calls s' @ evs'" "\<forall>ev \<in> set evs'. listed s' ev"
    unfolding narrows_def by blast
  have sub: "\<forall>k. set (list_at s' k) \<subseteq> set (list_at s k)"
    using assms(1) by (simp add: narrows_def)
  have "calls s'' = calls s @ (evs @ evs')" using 1 2 by simp
  moreover have "\<forall>ev \<in> set (evs @ evs'). listed s ev"
    using 1 2 listed_sublist[OF sub] by auto
  moreover have "next_id s'' = next_id s" using assms by (simp add: narrows_def)
  moreover have "\<forall>k. set (list_at s'' k) \<subseteq> set (list_at s k)"
    using assms unfolding narrows_def by (meson subset_trans)
  ultimately show ?thesis unfolding narrows_def by blast
qed

lemma narrows_silent:
  assumes "next_id s' = next_id s" and "\<And>k. set (list_at s' k) \<subseteq> set (list_at s k)"
    and "calls s' = calls s"
  shows "narrows s s'"
  using assms by (simp add: narrows_def)

lemma notifies_refl: "notifies s s"
  by (simp add: notifies_def shrinks_refl narrows_refl)

lemma notifies_invoke:
  assumes "notifies s s'" and "listed s (Invoke l args)"
  shows "notifies s (snd (invoke l args s'))"
proof -
  let ?s = "snd (invoke l args s')"
  from assms(1) obtain evs where evs: "calls s' = calls s @ evs" "\<forall>ev \<in> set evs. listed s ev"
    unfolding notifies_def narrows_def by blast
  have sh: "shrinks s ?s"
    using assms(1) invoke_shrinks[of s' l args] shrinks_trans unfolding notifies_def by blast
  have "calls ?s = calls s @ (evs @ [Invoke l args])"
    using evs by (simp add: invoke_calls)
  moreover have "\<forall>ev \<in> set (evs @ [Invoke l args]). listed s ev"
    using evs assms(2) by simp
  ultimately have "\<exists>evs. calls ?s = calls s @ evs \<and> (\<forall>ev \<in> set evs. listed s ev)"
    by blast
  then have "narrows s ?s" using sh by (simp add: narrows_def shrinks_def)
  then show ?thesis using sh by (simp add: notifies_def)
qed

lemma notifies_sublist: "notifies s s' \<Longrightarrow> set (list_at s' k) \<subseteq> set (list_at s k)"
  by (simp add: notifies_def shrinks_def)

text \<open>The two passes of \<^verbatim>\<open>update\<close>, over listeners of the lists of the starting state.\<close>

lemma forEach_invoke_notifies:
  assumes "notifies s s'" and "set ls \<subseteq> set (list_at s k)"
  shows "notifies s (snd (forEach (\<lambda>l. invoke l args) ls s'))"
  using assms(1)
proof (rule forEach_keeps[where R = "notifies s", rotated])
  fix l s'' assume "l \<in> set ls" and "notifies s s''"
  then show "notifies s (snd (invoke l args s''))"
    using assms(2) by (intro notifies_invoke listedI[of _ _ k]) auto
qed

lemma notify_selector_notifies:
  assumes "notifies s s'"
  shows "notifies s (snd (notify_selector q s'))"
proof (cases "selectors s' q")
  case None
  then show ?thesis using assms by (simp add: notify_selector_def)
next
  case (Some e)
  have sub: "set (sel_listeners e) \<subseteq> set (list_at s (SelectorSlot q))"
    using notifies_sublist[OF assms, of "SelectorSlot q"] Some by simp
  let ?body = "\<lambda>l s'. case getSelector s' q of
                         Inl e \<Rightarrow> (Some e, s') | Inr v \<Rightarrow> invoke l [v] s'"
  have "notifies s (snd (forEach ?body (sel_listeners e) s'))"
    using assms
  proof (rule forEach_keeps[where R = "notifies s", rotated])
    fix l s'' assume l: "l \<in> set (sel_listeners e)" and n: "notifies s s''"
    show "notifies s (snd (?body l s''))"
    proof (cases "getSelector s'' q")
      case (Inl err)
      then show ?thesis using n by simp
    next
      case (Inr v)
      then show ?thesis
        using notifies_invoke[OF n listedI[of l s "SelectorSlot q" "[v]"]] l sub by auto
    qed
  qed
  then show ?thesis using Some by (simp add: notify_selector_def)
qed

lemma forEach_notify_selector_notifies:
  assumes "notifies s s'"
  shows "notifies s (snd (forEach notify_selector qs s'))"
  using assms
  by (rule forEach_keeps[where R = "notifies s", rotated]) (rule notify_selector_notifies)

subsection \<open>What the relations preserve\<close>

lemma confined_narrows: "narrows s s' \<Longrightarrow> confined i K s \<Longrightarrow> confined i K s'"
  unfolding narrows_def confined_def by (metis subsetD)

lemma ids_inv_narrows: "narrows s s' \<Longrightarrow> ids_inv s \<Longrightarrow> ids_inv s'"
  unfolding narrows_def ids_inv_def by (metis subsetD)

lemma dom_inv_shrinks:
  assumes "shrinks s s'" and "dom_inv s"
  shows "dom_inv s'"
proof -
  have "store s' d \<noteq> None" if "selectors s' q = Some e'" "d \<in> set (sel_deps e')" for q e' d
  proof -
    from assms(1) have "map_option sel_core (selectors s' q) = map_option sel_core (selectors s q)"
      by (simp add: shrinks_def)
    with that(1) obtain e where "selectors s q = Some e" "sel_core e = sel_core e'"
      by (cases "selectors s q") auto
    then have "store s d \<noteq> None" using assms(2) that(2) by (auto simp: dom_inv_def sel_core_def)
    then show ?thesis using assms(1) by (simp add: shrinks_def)
  qed
  moreover have "listeners s' n \<noteq> None" if "store s' n \<noteq> None" for n
    using that assms by (simp add: shrinks_def dom_inv_def)
  ultimately show ?thesis unfolding dom_inv_def by blast
qed

lemma invocations_of_append [simp]:
  "invocations_of i (xs @ ys) = invocations_of i xs @ invocations_of i ys"
  by (simp add: invocations_of_def)

lemma invocations_of_listed:
  assumes "confined i {} s" and "\<forall>ev \<in> set evs. listed s ev"
  shows "invocations_of i evs = []"
proof -
  have "\<not> invoked i ev" if "ev \<in> set evs" for ev
  proof -
    from that assms(2) obtain l args k where "ev = Invoke l args" "l \<in> set (list_at s k)"
      unfolding listed_def by blast
    then show ?thesis using assms(1) by (auto simp: confined_def)
  qed
  then show ?thesis by (simp add: invocations_of_def)
qed

lemma invocations_of_narrows:
  assumes "narrows s s'" and "confined i {} s"
  shows "invocations_of i (calls s') = invocations_of i (calls s)"
proof -
  from assms(1) obtain evs where "calls s' = calls s @ evs" "\<forall>ev \<in> set evs. listed s ev"
    unfolding narrows_def by blast
  then show ?thesis using invocations_of_listed[OF assms(2)] by simp
qed

subsection \<open>The operations\<close>

lemma initDataStoreItem_present: "store s n \<noteq> None \<Longrightarrow> initDataStoreItem n v s = s"
  by (auto simp: initDataStoreItem_def)

lemma initDataStoreItem_store: "store (initDataStoreItem n v s) n \<noteq> None"
  by (simp add: initDataStoreItem_def)


lemma initDataStoreItem_narrows: "narrows s (initDataStoreItem n v s)"
  by (rule narrows_silent)
     (auto simp: initDataStoreItem_def list_at_listeners_upd split: slot.splits if_splits)

lemma initDataStoreItem_dom_inv: "dom_inv s \<Longrightarrow> dom_inv (initDataStoreItem n v s)"
  unfolding dom_inv_def initDataStoreItem_def by auto

lemma dom_inv_store_upd:
  assumes "dom_inv s" and "store s n \<noteq> None"
  shows "dom_inv (s\<lparr>store := (store s)(n \<mapsto> item)\<rparr>)"
  using assms unfolding dom_inv_def by auto

lemma narrows_store_upd: "narrows s (s\<lparr>store := x\<rparr>)"
  by (rule narrows_silent) simp_all

lemma remove_narrows: "narrows s (snd (remove h s))"
  using remove_shrinks[of s h] by (intro narrows_silent) (simp_all add: shrinks_def remove_calls)

text \<open>\<^verbatim>\<open>update\<close> ends in the state with the entry ensured, or after the value is stored
  and listeners were notified.\<close>

lemma update_result:
  "snd (update name data s0) = initDataStoreItem name JUndefined s0 \<or>
   (\<exists>item. store (initDataStoreItem name JUndefined s0) name = Some item \<and>
      notifies ((initDataStoreItem name JUndefined s0)
                  \<lparr>store := (store (initDataStoreItem name JUndefined s0))
                              (name \<mapsto> item\<lparr>item_data := data\<rparr>)\<rparr>)
               (snd (update name data s0)))"
proof -
  let ?s = "initDataStoreItem name JUndefined s0"
  obtain item where item: "store ?s name = Some item"
    using initDataStoreItem_store[of name JUndefined s0] by blast
  let ?s1 = "?s\<lparr>store := (store ?s)(name \<mapsto> item\<lparr>item_data := data\<rparr>)\<rparr>"
  show ?thesis
  proof (cases "compareValuesDiff data (item_data item)")
    case (Inl e)
    then show ?thesis using item by (simp add: update_def Let_def)
  next
    case (Inr diff)
    show ?thesis
    proof (cases "diff \<and> listeners ?s name \<noteq> None")
      case False
      then have "snd (update name data s0) = ?s \<or> snd (update name data s0) = ?s1"
        using item Inr by (auto simp: update_def Let_def)
      then show ?thesis using item notifies_refl by auto
    next
      case True
      then obtain ls where ls: "listeners ?s name = Some ls" by blast
      let ?p = "forEach (\<lambda>l. invoke l [data, item_data item]) ls ?s1"
      have 1: "notifies ?s1 (snd ?p)"
        by (rule forEach_invoke_notifies[where k = "DataSlot name", OF notifies_refl])
           (simp add: ls)
      have 2: "notifies ?s1 (snd (forEach notify_selector (item_selectors item) (snd ?p)))"
        by (rule forEach_notify_selector_notifies[OF 1])
      have "snd (update name data s0) = snd ?p \<or>
            snd (update name data s0) = snd (forEach notify_selector (item_selectors item) (snd ?p))"
        using item Inr True ls by (cases ?p) (auto simp: update_def Let_def split: option.splits)
      then show ?thesis using item 1 2 by auto
    qed
  qed
qed

lemma update_narrows: "narrows s (snd (update name data s))"
proof -
  let ?s = "initDataStoreItem name JUndefined s"
  have 0: "narrows s ?s" by (rule initDataStoreItem_narrows)
  from update_result[of name data s] show ?thesis
  proof
    assume "snd (update name data s) = ?s"
    then show ?thesis using 0 by simp
  next
    assume "\<exists>item. store ?s name = Some item \<and>
      notifies (?s\<lparr>store := (store ?s)(name \<mapsto> item\<lparr>item_data := data\<rparr>)\<rparr>)
               (snd (update name data s))"
    then obtain item where
      "notifies (?s\<lparr>store := (store ?s)(name \<mapsto> item\<lparr>item_data := data\<rparr>)\<rparr>)
               (snd (update name data s))" by blast
    then show ?thesis
      using 0 narrows_store_upd narrows_trans unfolding notifies_def by blast
  qed
qed

lemma update_dom_inv:
  assumes "dom_inv s"
  shows "dom_inv (snd (update name data s))"
proof -
  let ?s = "initDataStoreItem name JUndefined s"
  have 0: "dom_inv ?s" using assms by (rule initDataStoreItem_dom_inv)
  from update_result[of name data s] show ?thesis
  proof
    assume "snd (update name data s) = ?s"
    then show ?thesis using 0 by simp
  next
    assume "\<exists>item. store ?s name = Some item \<and>
      notifies (?s\<lparr>store := (store ?s)(name \<mapsto> item\<lparr>item_data := data\<rparr>)\<rparr>)
               (snd (update name data s))"
    then obtain item where item: "store ?s name = Some item" and
      n: "notifies (?s\<lparr>store := (store ?s)(name \<mapsto> item\<lparr>item_data := data\<rparr>)\<rparr>)
               (snd (update name data s))" by blast
    have "dom_inv (?s\<lparr>store := (store ?s)(name \<mapsto> item\<lparr>item_data := data\<rparr>)\<rparr>)"
      using 0 item by (intro dom_inv_store_upd) simp_all
    then show ?thesis using n dom_inv_shrinks unfolding notifies_def by blast
  qed
qed

lemma fold_keeps:
  assumes "\<And>x s. R s \<Longrightarrow> R (f x s)" and "R s"
  shows "R (fold f xs s)"
  using assms(2) by (induction xs arbitrary: s) (simp_all add: assms(1))

lemma narrows_selectors_reset:
  "sel_listeners e = [] \<Longrightarrow> narrows s (s\<lparr>selectors := (selectors s)(q \<mapsto> e)\<rparr>)"
  by (rule narrows_silent) (auto simp: list_at_selectors_upd split: slot.splits)

lemma initDataStore_narrows: "narrows s (initDataStore data sels s)"
proof -
  let ?f = "\<lambda>(name, initialValue) s'. initDataStoreItem name initialValue s'"
  let ?g = "\<lambda>selectorName s'.
              s'\<lparr>selectors := (selectors s')(qualify selectorName \<mapsto> placeholder)\<rparr>"
  have "narrows s (fold ?f data s)"
    by (rule fold_keeps[where R = "narrows s"])
       (auto intro: narrows_trans initDataStoreItem_narrows narrows_refl)
  then have "narrows s (fold ?g sels (fold ?f data s))"
  proof (rule fold_keeps[where R = "narrows s", rotated])
    fix x s' assume "narrows s s'"
    moreover have "narrows s' (?g x s')"
      by (rule narrows_selectors_reset) (simp add: placeholder_def)
    ultimately show "narrows s (?g x s')" by (rule narrows_trans)
  qed
  then show ?thesis by (simp add: initDataStore_def)
qed

lemma dom_inv_selectors_upd:
  assumes "dom_inv s" and "\<forall>d \<in> set (sel_deps e). store s d \<noteq> None"
  shows "dom_inv (s\<lparr>selectors := (selectors s)(q \<mapsto> e)\<rparr>)"
  using assms unfolding dom_inv_def by auto

lemma initDataStore_dom_inv:
  assumes "dom_inv s"
  shows "dom_inv (initDataStore data sels s)"
proof -
  let ?f = "\<lambda>(name, initialValue) s'. initDataStoreItem name initialValue s'"
  let ?g = "\<lambda>selectorName s'.
              s'\<lparr>selectors := (selectors s')(qualify selectorName \<mapsto> placeholder)\<rparr>"
  have "dom_inv (fold ?f data s)"
    using assms by (rule fold_keeps[where R = dom_inv, rotated])
      (auto intro: initDataStoreItem_dom_inv)
  then have "dom_inv (fold ?g sels (fold ?f data s))"
    by (rule fold_keeps[where R = dom_inv, rotated])
       (auto intro: dom_inv_selectors_upd simp: placeholder_def)
  then show ?thesis by (simp add: initDataStore_def)
qed

subsection \<open>\<^verbatim>\<open>defineSelector\<close>\<close>

lemma register_dep_result:
  "snd (register_dep q d s) = s \<or>
   (\<exists>item. store s d \<noteq> None \<and> snd (register_dep q d s) = s\<lparr>store := (store s)(d \<mapsto> item)\<rparr>)"
  by (auto simp: register_dep_def split: option.splits)

lemma register_dep_narrows: "narrows s (snd (register_dep q d s))"
  using register_dep_result[of q d s] narrows_refl narrows_store_upd by auto

lemma register_dep_dom_inv: "dom_inv s \<Longrightarrow> dom_inv (snd (register_dep q d s))"
  using register_dep_result[of q d s] dom_inv_store_upd by auto

lemma register_dep_keeps_entries:
  "store s n \<noteq> None \<Longrightarrow> store (snd (register_dep q d s)) n \<noteq> None"
  using register_dep_result[of q d s] by auto

lemma register_dep_ok: "fst (register_dep q d s) = None \<Longrightarrow> store s d \<noteq> None"
  by (auto simp: register_dep_def split: option.splits)

lemma forEach_register_dep_keeps_entries:
  "store s n \<noteq> None \<Longrightarrow> store (snd (forEach (register_dep q) ds s)) n \<noteq> None"
  by (rule forEach_keeps[where R = "\<lambda>s. store s n \<noteq> None"])
     (simp_all add: register_dep_keeps_entries)

lemma forEach_register_dep_ok:
  "fst (forEach (register_dep q) ds s) = None \<Longrightarrow>
   \<forall>d \<in> set ds. store (snd (forEach (register_dep q) ds s)) d \<noteq> None"
proof (induction ds arbitrary: s)
  case Nil
  then show ?case by simp
next
  case (Cons d ds)
  obtain r s' where rs: "register_dep q d s = (r, s')" by (cases "register_dep q d s")
  with Cons.prems have r: "r = None" by (cases r) auto
  then have d: "store s d \<noteq> None" using rs register_dep_ok[of q d s] by simp
  then have "store s' d \<noteq> None" using rs register_dep_keeps_entries[of s d q d] by simp
  then have "store (snd (forEach (register_dep q) ds s')) d \<noteq> None"
    by (rule forEach_register_dep_keeps_entries)
  moreover have "\<forall>d \<in> set ds. store (snd (forEach (register_dep q) ds s')) d \<noteq> None"
    using Cons.prems rs r by (intro Cons.IH) simp
  ultimately show ?case using rs r by simp
qed

lemma forEach_register_dep_narrows: "narrows s (snd (forEach (register_dep q) ds s))"
  by (rule forEach_keeps[where R = "narrows s"])
     (auto intro: narrows_trans register_dep_narrows narrows_refl)

lemma forEach_register_dep_dom_inv:
  "dom_inv s \<Longrightarrow> dom_inv (snd (forEach (register_dep q) ds s))"
  by (rule forEach_keeps[where R = dom_inv]) (auto intro: register_dep_dom_inv)

text \<open>How \<^verbatim>\<open>defineSelector\<close> ends.\<close>

lemma defineSelector_result:
  "(snd (defineSelector nm depNames t s) = s \<and> fst (defineSelector nm depNames t s) \<noteq> None) \<or>
   (\<exists>name ds s1. nm = JStr name \<and> ds = as_array depNames \<and>
      forEach (register_dep (qualify name)) ds s = (fst (defineSelector nm depNames t s), s1) \<and>
      (if fst (defineSelector nm depNames t s) = None
       then snd (defineSelector nm depNames t s) =
              s1\<lparr>selectors := (selectors s1)
                    (qualify name \<mapsto> \<lparr>sel_transformer = t, sel_deps = ds, sel_listeners = []\<rparr>)\<rparr>
       else snd (defineSelector nm depNames t s) = s1))"
proof (cases nm)
  case (JStr name)
  let ?ds = "as_array depNames"
  obtain r s1 where rs: "forEach (register_dep (qualify name)) ?ds s = (r, s1)"
    by (cases "forEach (register_dep (qualify name)) ?ds s")
  then show ?thesis using JStr by (cases r) (simp_all add: defineSelector_def Let_def)
qed (simp_all add: defineSelector_def)

lemma defineSelector_narrows: "narrows s (snd (defineSelector nm depNames t s))"
  using defineSelector_result[of nm depNames t s]
proof (elim disjE exE conjE)
  fix name ds s1
  assume f: "forEach (register_dep (qualify name)) ds s = (fst (defineSelector nm depNames t s), s1)"
    and r: "if fst (defineSelector nm depNames t s) = None
       then snd (defineSelector nm depNames t s) =
              s1\<lparr>selectors := (selectors s1)
                    (qualify name \<mapsto> \<lparr>sel_transformer = t, sel_deps = ds, sel_listeners = []\<rparr>)\<rparr>
       else snd (defineSelector nm depNames t s) = s1"
  have 1: "narrows s s1"
    using forEach_register_dep_narrows[of s "qualify name" ds] f by simp
  show ?thesis
  proof (cases "fst (defineSelector nm depNames t s) = None")
    case True
    then show ?thesis using r 1 narrows_selectors_reset[of _ s1 "qualify name"] narrows_trans
      by (metis selector_entry.select_convs(3))
  next
    case False
    then show ?thesis using r 1 by simp
  qed
qed (simp add: narrows_refl)

lemma defineSelector_dom_inv:
  assumes "dom_inv s"
  shows "dom_inv (snd (defineSelector nm depNames t s))"
  using defineSelector_result[of nm depNames t s]
proof (elim disjE exE conjE)
  fix name ds s1
  assume f: "forEach (register_dep (qualify name)) ds s = (fst (defineSelector nm depNames t s), s1)"
    and r: "if fst (defineSelector nm depNames t s) = None
       then snd (defineSelector nm depNames t s) =
              s1\<lparr>selectors := (selectors s1)
                    (qualify name \<mapsto> \<lparr>sel_transformer = t, sel_deps = ds, sel_listeners = []\<rparr>)\<rparr>
       else snd (defineSelector nm depNames t s) = s1"
  have 1: "dom_inv s1"
    using forEach_register_dep_dom_inv[OF assms, of "qualify name" ds] f by simp
  show ?thesis
  proof (cases "fst (defineSelector nm depNames t s) = None")
    case True
    then have "\<forall>d \<in> set ds. store s1 d \<noteq> None"
      using forEach_register_dep_ok[of "qualify name" ds s] f by simp
    then show ?thesis using r 1 True by (simp add: dom_inv_selectors_upd)
  next
    case False
    then show ?thesis using r 1 by simp
  qed
qed (simp add: assms)

subsection \<open>The subscribe operations\<close>

lemma confined_joins: "joins s s' \<Longrightarrow> confined i K s \<Longrightarrow> confined i K s'"
  unfolding joins_def confined_def by (metis less_Suc_eq less_irrefl)

lemma ids_inv_joins:
  assumes "joins s s'" and "ids_inv s"
  shows "ids_inv s'"
proof -
  from assms(1) obtain k where n: "next_id s' = Suc (next_id s)"
    and k: "\<And>k' l. l \<in> set (list_at s' k') \<Longrightarrow>
              l \<in> set (list_at s k') \<or> (k' = k \<and> l_id l = next_id s)"
    unfolding joins_def by blast
  have old: "\<And>k l. l \<in> set (list_at s k) \<Longrightarrow> l_id l < next_id s"
    and uniq: "\<And>k k' l l'. l \<in> set (list_at s k) \<Longrightarrow> l' \<in> set (list_at s k')
        \<Longrightarrow> l_id l = l_id l' \<Longrightarrow> k = k'"
    using assms(2) unfolding ids_inv_def by blast+
  have "l_id l < next_id s'" if "l \<in> set (list_at s' k')" for k' l
    using k[OF that] old n by (auto simp: less_Suc_eq)
  moreover have "k1 = k2"
    if "l \<in> set (list_at s' k1)" "l' \<in> set (list_at s' k2)" "l_id l = l_id l'" for k1 k2 l l'
    using k[OF that(1)] k[OF that(2)] that(3) old uniq
    by (metis less_irrefl)
  ultimately show ?thesis unfolding ids_inv_def by blast
qed

lemma joins_data:
  assumes "listeners s n = Some ls" and "l_id l = next_id s"
  shows "joins s (s\<lparr>listeners := (listeners s)(n \<mapsto> ls @ [l]), removed := R,
                    next_id := Suc (next_id s)\<rparr>)"
  unfolding joins_def using assms
  by (auto simp: list_at_listeners_upd intro!: exI[of _ "DataSlot n"] split: slot.splits if_splits)

lemma joins_selector:
  assumes "selectors s q = Some e" and "l_id l = next_id s"
  shows "joins s (s\<lparr>selectors := (selectors s)
                      (q \<mapsto> e\<lparr>sel_listeners := sel_listeners e @ [l]\<rparr>),
                    removed := R, next_id := Suc (next_id s)\<rparr>)"
  unfolding joins_def using assms
  by (auto simp: list_at_selectors_upd intro!: exI[of _ "SelectorSlot q"]
           split: slot.splits if_splits)

text \<open>How the subscribe operations end: with an error before the listener is pushed
  (after the entry is ensured, for a value name), or with the listener pushed and, when
  asked for, called.\<close>

lemma addDataListener_result:
  fixes n cb imm s0
  defines "s \<equiv> initDataStoreItem n JUndefined s0"
  defines "l \<equiv> \<lparr>l_id = next_id s, onChange = cb\<rparr>"
  shows "snd (addDataListener n cb imm s0) = s \<or>
         (\<exists>ls. listeners s n = Some ls \<and>
            notifies (s\<lparr>listeners := (listeners s)(n \<mapsto> ls @ [l]),
                        removed := removed s - {next_id s}, next_id := Suc (next_id s)\<rparr>)
                     (snd (addDataListener n cb imm s0)))"
proof (cases "listeners s n")
  case None
  then show ?thesis by (simp add: addDataListener_def s_def Let_def)
next
  case (Some ls)
  let ?s1 = "s\<lparr>listeners := (listeners s)(n \<mapsto> ls @ [l]),
               removed := removed s - {next_id s}, next_id := Suc (next_id s)\<rparr>"
  have "listed ?s1 (Invoke l args)" for args
    by (rule listedI[where k = "DataSlot n"]) simp
  then have inv: "notifies ?s1 (snd (invoke l args ?s1))" for args
    using notifies_invoke[OF notifies_refl] by blast
  have "snd (addDataListener n cb imm s0) = ?s1 \<or>
        (\<exists>args. snd (addDataListener n cb imm s0) = snd (invoke l args ?s1))"
  proof (cases "imm \<and> store ?s1 n \<noteq> None")
    case False
    then show ?thesis
      using Some unfolding addDataListener_def s_def[symmetric] Let_def l_def[symmetric]
      by (auto split: option.splits)
  next
    case True
    then obtain item where item: "store ?s1 n = Some item" by blast
    obtain r s2 where "invoke l [item_data item] ?s1 = (r, s2)"
      by (cases "invoke l [item_data item] ?s1")
    then have "snd (addDataListener n cb imm s0) = snd (invoke l [item_data item] ?s1)"
      using Some True item
      unfolding addDataListener_def s_def[symmetric] Let_def l_def[symmetric]
      by (cases r) simp_all
    then show ?thesis by blast
  qed
  then show ?thesis using Some inv notifies_refl by auto
qed

lemma addSelectorListener_result:
  fixes n cb imm s
  defines "l \<equiv> \<lparr>l_id = next_id s, onChange = cb\<rparr>"
  shows "snd (addSelectorListener n cb imm s) = s \<or>
         (\<exists>e. selectors s (qualify n) = Some e \<and>
            notifies (s\<lparr>selectors := (selectors s)
                          (qualify n \<mapsto> e\<lparr>sel_listeners := sel_listeners e @ [l]\<rparr>),
                        removed := removed s - {next_id s}, next_id := Suc (next_id s)\<rparr>)
                     (snd (addSelectorListener n cb imm s)))"
proof (cases "selectors s (qualify n)")
  case None
  then show ?thesis by (simp add: addSelectorListener_def Let_def)
next
  case (Some e)
  let ?s1 = "s\<lparr>selectors := (selectors s)
                          (qualify n \<mapsto> e\<lparr>sel_listeners := sel_listeners e @ [l]\<rparr>),
               removed := removed s - {next_id s}, next_id := Suc (next_id s)\<rparr>"
  have "listed ?s1 (Invoke l args)" for args
    by (rule listedI[where k = "SelectorSlot (qualify n)"]) simp
  then have inv: "notifies ?s1 (snd (invoke l args ?s1))" for args
    using notifies_invoke[OF notifies_refl] by blast
  have "snd (addSelectorListener n cb imm s) = ?s1 \<or>
        (\<exists>args. snd (addSelectorListener n cb imm s) = snd (invoke l args ?s1))"
  proof (cases "getSelector ?s1 (qualify n)")
    case (Inl err)
    then show ?thesis
      using Some unfolding addSelectorListener_def Let_def l_def[symmetric] by simp
  next
    case (Inr v)
    obtain r s2 where "invoke l [v] ?s1 = (r, s2)" by (cases "invoke l [v] ?s1")
    then have "imm \<Longrightarrow> snd (addSelectorListener n cb imm s) = snd (invoke l [v] ?s1)"
      using Some Inr unfolding addSelectorListener_def Let_def l_def[symmetric]
      by (cases r) simp_all
    moreover have "\<not> imm \<Longrightarrow> snd (addSelectorListener n cb imm s) = ?s1"
      using Some unfolding addSelectorListener_def Let_def l_def[symmetric] by simp
    ultimately show ?thesis by blast
  qed
  then show ?thesis using Some inv notifies_refl by auto
qed

subsection \<open>Any call\<close>

lemma perform_shape:
  "narrows s (perform c s) \<or>
   (\<exists>sa sb. narrows s sa \<and> joins sa sb \<and> narrows sb (perform c s))"
proof (cases c)
  case (CInitDataStore data sels)
  then show ?thesis by (simp add: initDataStore_narrows)
next
  case (CUpdate name v)
  then show ?thesis by (simp add: update_narrows)
next
  case (CDefineSelector nm deps t)
  then show ?thesis by (simp add: defineSelector_narrows)
next
  case (CRemove h)
  then show ?thesis by (simp add: remove_narrows)
next
  case (CAddSelectorListener n cb imm)
  let ?l = "\<lparr>l_id = next_id s, onChange = cb\<rparr>"
  from addSelectorListener_result[of n cb imm s] show ?thesis
  proof (elim disjE exE conjE)
    assume "snd (addSelectorListener n cb imm s) = s"
    then show ?thesis using CAddSelectorListener by (simp add: narrows_refl)
  next
    fix e
    assume e: "selectors s (qualify n) = Some e"
      and n: "notifies (s\<lparr>selectors := (selectors s)
                          (qualify n \<mapsto> e\<lparr>sel_listeners := sel_listeners e @ [?l]\<rparr>),
                        removed := removed s - {next_id s}, next_id := Suc (next_id s)\<rparr>)
                     (snd (addSelectorListener n cb imm s))"
    have "joins s (s\<lparr>selectors := (selectors s)
                          (qualify n \<mapsto> e\<lparr>sel_listeners := sel_listeners e @ [?l]\<rparr>),
                        removed := removed s - {next_id s}, next_id := Suc (next_id s)\<rparr>)"
      by (rule joins_selector[OF e]) simp
    then show ?thesis using n narrows_refl[of s] CAddSelectorListener
      unfolding notifies_def by auto
  qed
next
  case (CAddDataListener n cb imm)
  let ?s = "initDataStoreItem n JUndefined s"
  let ?l = "\<lparr>l_id = next_id ?s, onChange = cb\<rparr>"
  have 0: "narrows s ?s" by (rule initDataStoreItem_narrows)
  from addDataListener_result[of n cb imm s] show ?thesis
  proof (elim disjE exE conjE)
    assume "snd (addDataListener n cb imm s) = ?s"
    then show ?thesis using CAddDataListener 0 by simp
  next
    fix ls
    assume ls: "listeners ?s n = Some ls"
      and n: "notifies (?s\<lparr>listeners := (listeners ?s)(n \<mapsto> ls @ [?l]),
                        removed := removed ?s - {next_id ?s}, next_id := Suc (next_id ?s)\<rparr>)
                     (snd (addDataListener n cb imm s))"
    have "joins ?s (?s\<lparr>listeners := (listeners ?s)(n \<mapsto> ls @ [?l]),
                        removed := removed ?s - {next_id ?s}, next_id := Suc (next_id ?s)\<rparr>)"
      by (rule joins_data[OF ls]) simp
    then show ?thesis using n 0 CAddDataListener
      unfolding notifies_def by auto
  qed
qed

lemma perform_confined: "confined i K s \<Longrightarrow> confined i K (perform c s)"
  using perform_shape[of s c] confined_narrows confined_joins by blast

lemma perform_ids_inv: "ids_inv s \<Longrightarrow> ids_inv (perform c s)"
  using perform_shape[of s c] ids_inv_narrows ids_inv_joins by blast

lemma perform_invocations:
  assumes "confined i {} s"
  shows "invocations_of i (calls (perform c s)) = invocations_of i (calls s)"
  using perform_shape[of s c]
proof (elim disjE exE conjE)
  assume "narrows s (perform c s)"
  then show ?thesis using assms by (rule invocations_of_narrows)
next
  fix sa sb assume 1: "narrows s sa" and 2: "joins sa sb" and 3: "narrows sb (perform c s)"
  have "confined i {} sb" using assms 1 2 confined_narrows confined_joins by blast
  then have "invocations_of i (calls (perform c s)) = invocations_of i (calls sb)"
    using 3 invocations_of_narrows by blast
  also have "\<dots> = invocations_of i (calls sa)" using 2 by (simp add: joins_def)
  also have "\<dots> = invocations_of i (calls s)" using 1 assms by (rule invocations_of_narrows)
  finally show ?thesis .
qed

lemma perform_all_dropped:
  "confined i {} s \<Longrightarrow>
   confined i {} (perform_all cs s) \<and>
   invocations_of i (calls (perform_all cs s)) = invocations_of i (calls s)"
  unfolding perform_all_def
  by (induction cs arbitrary: s) (simp_all add: perform_confined perform_invocations)

subsection \<open>Reachable states\<close>

lemma dom_inv_flags [simp]: "dom_inv (s\<lparr>removed := R, next_id := N\<rparr>) = dom_inv s"
  by (simp add: dom_inv_def)

lemma dom_inv_listeners_upd:
  "dom_inv s \<Longrightarrow> dom_inv (s\<lparr>listeners := (listeners s)(n \<mapsto> ls)\<rparr>)"
  unfolding dom_inv_def by auto

lemma perform_dom_inv:
  assumes "dom_inv s"
  shows "dom_inv (perform c s)"
proof (cases c)
  case (CInitDataStore data sels)
  then show ?thesis using assms by (simp add: initDataStore_dom_inv)
next
  case (CUpdate name v)
  then show ?thesis using assms by (simp add: update_dom_inv)
next
  case (CDefineSelector nm deps t)
  then show ?thesis using assms by (simp add: defineSelector_dom_inv)
next
  case (CRemove h)
  then show ?thesis using assms dom_inv_shrinks[OF remove_shrinks] by simp
next
  case (CAddSelectorListener n cb imm)
  let ?l = "\<lparr>l_id = next_id s, onChange = cb\<rparr>"
  from addSelectorListener_result[of n cb imm s] show ?thesis
  proof (elim disjE exE conjE)
    assume "snd (addSelectorListener n cb imm s) = s"
    then show ?thesis using CAddSelectorListener assms by simp
  next
    fix e
    assume e: "selectors s (qualify n) = Some e"
      and n: "notifies (s\<lparr>selectors := (selectors s)
                          (qualify n \<mapsto> e\<lparr>sel_listeners := sel_listeners e @ [?l]\<rparr>),
                        removed := removed s - {next_id s}, next_id := Suc (next_id s)\<rparr>)
                     (snd (addSelectorListener n cb imm s))"
    have "\<forall>d \<in> set (sel_deps (e\<lparr>sel_listeners := sel_listeners e @ [?l]\<rparr>)). store s d \<noteq> None"
      using assms e by (auto simp: dom_inv_def)
    then have "dom_inv (s\<lparr>selectors := (selectors s)
                          (qualify n \<mapsto> e\<lparr>sel_listeners := sel_listeners e @ [?l]\<rparr>)\<rparr>)"
      by (rule dom_inv_selectors_upd[OF assms])
    then show ?thesis using n CAddSelectorListener dom_inv_shrinks
      unfolding notifies_def by fastforce
  qed
next
  case (CAddDataListener n cb imm)
  let ?s = "initDataStoreItem n JUndefined s"
  let ?l = "\<lparr>l_id = next_id ?s, onChange = cb\<rparr>"
  have 0: "dom_inv ?s" using assms by (rule initDataStoreItem_dom_inv)
  from addDataListener_result[of n cb imm s] show ?thesis
  proof (elim disjE exE conjE)
    assume "snd (addDataListener n cb imm s) = ?s"
    then show ?thesis using CAddDataListener 0 by simp
  next
    fix ls
    assume n: "notifies (?s\<lparr>listeners := (listeners ?s)(n \<mapsto> ls @ [?l]),
                        removed := removed ?s - {next_id ?s}, next_id := Suc (next_id ?s)\<rparr>)
                     (snd (addDataListener n cb imm s))"
    have "dom_inv (?s\<lparr>listeners := (listeners ?s)(n \<mapsto> ls @ [?l])\<rparr>)"
      using 0 by (rule dom_inv_listeners_upd)
    then show ?thesis using n CAddDataListener dom_inv_shrinks
      unfolding notifies_def by fastforce
  qed
qed

lemma reachable_inv: "reachable s \<Longrightarrow> dom_inv s \<and> ids_inv s"
proof (induction rule: reachable.induct)
  case reachable_constructor
  have "list_at constructor k = []" for k by (cases k) (simp_all add: constructor_def)
  then show ?case by (simp add: dom_inv_def ids_inv_def constructor_def)
next
  case (reachable_perform s c)
  then show ?case by (simp add: perform_dom_inv perform_ids_inv)
qed

text \<open>In a reachable state a listener is in no list but its own.\<close>

lemma listener_confined:
  assumes "ids_inv s" and "l \<in> set (list_at s k)"
  shows "confined (l_id l) {k} s"
  using assms unfolding ids_inv_def confined_def by (metis singletonI)

subsection \<open>Redefinition\<close>

lemma register_dep_calls: "calls (snd (register_dep q d s)) = calls s"
  using register_dep_result[of q d s] by auto

lemma defineSelector_calls: "calls (snd (defineSelector nm depNames t s)) = calls s"
proof -
  have "calls (snd (forEach (register_dep q) ds s)) = calls s" for q ds
    by (rule forEach_keeps[where R = "\<lambda>s'. calls s' = calls s"])
       (simp_all add: register_dep_calls)
  then show ?thesis
    using defineSelector_result[of nm depNames t s]
    by (auto split: if_splits) (metis snd_conv)+
qed

lemma defineSelector_entry:
  assumes "fst (defineSelector (JStr name) depNames t s) = None"
  shows "selectors (snd (defineSelector (JStr name) depNames t s)) (qualify name) =
           Some \<lparr>sel_transformer = t, sel_deps = as_array depNames, sel_listeners = []\<rparr>"
  using assms defineSelector_result[of "JStr name" depNames t s] by auto

lemma defineSelector_drops:
  assumes "ids_inv s" and "l \<in> set (list_at s (SelectorSlot (qualify name)))"
    and "fst (defineSelector (JStr name) depNames t s) = None"
  shows "confined (l_id l) {} (snd (defineSelector (JStr name) depNames t s))"
proof -
  let ?s' = "snd (defineSelector (JStr name) depNames t s)"
  have c: "confined (l_id l) {SelectorSlot (qualify name)} ?s'"
    using listener_confined[OF assms(1,2)] defineSelector_narrows confined_narrows by blast
  have "list_at ?s' (SelectorSlot (qualify name)) = []"
    using defineSelector_entry[OF assms(3)] by simp
  then show ?thesis using c unfolding confined_def by (metis empty_iff empty_set singletonD)
qed

subsection \<open>Passes whose listener bodies remove handles\<close>

lemma forEach_invoke_calls:
  assumes "\<forall>l \<in> set ls. \<forall>h \<in> set (cb_removes (onChange l)). target_exists s h"
  shows "fst (forEach (\<lambda>l. invoke l args) ls s) = None \<and>
         calls (snd (forEach (\<lambda>l. invoke l args) ls s)) = calls s @ map (\<lambda>l. Invoke l args) ls"
  using assms
proof (induction ls arbitrary: s)
  case Nil
  then show ?case by simp
next
  case (Cons l ls)
  obtain r s' where rs: "invoke l args s = (r, s')" by (cases "invoke l args s")
  have r: "r = None" using invoke_ok[of l s args] Cons.prems rs by simp
  have sh: "shrinks s s'" using invoke_shrinks[of s l args] rs by simp
  have c: "calls s' = calls s @ [Invoke l args]" using invoke_calls[of l args s] rs by simp
  have "\<forall>l \<in> set ls. \<forall>h \<in> set (cb_removes (onChange l)). target_exists s' h"
    using Cons.prems target_exists_shrinks[OF sh] by simp
  from Cons.IH[OF this] show ?case using rs r c by simp
qed

lemma forEach_selector_listeners_calls:
  assumes "\<forall>l \<in> set ls. \<forall>h \<in> set (cb_removes (onChange l)). target_exists s h"
    and "getSelector s q = Inr v"
  shows "fst (forEach (\<lambda>l s'. case getSelector s' q of
                                 Inl e \<Rightarrow> (Some e, s') | Inr v \<Rightarrow> invoke l [v] s') ls s) = None \<and>
         calls (snd (forEach (\<lambda>l s'. case getSelector s' q of
                                 Inl e \<Rightarrow> (Some e, s') | Inr v \<Rightarrow> invoke l [v] s') ls s)) =
           calls s @ map (\<lambda>l. Invoke l [v]) ls"
  using assms
proof (induction ls arbitrary: s)
  case Nil
  then show ?case by simp
next
  case (Cons l ls)
  obtain r s' where rs: "invoke l [v] s = (r, s')" by (cases "invoke l [v] s")
  have r: "r = None" using invoke_ok[of l s "[v]"] Cons.prems rs by simp
  have sh: "shrinks s s'" using invoke_shrinks[of s l "[v]"] rs by simp
  have c: "calls s' = calls s @ [Invoke l [v]]" using invoke_calls[of l "[v]" s] rs by simp
  have "\<forall>l \<in> set ls. \<forall>h \<in> set (cb_removes (onChange l)). target_exists s' h"
    using Cons.prems target_exists_shrinks[OF sh] by simp
  moreover have "getSelector s' q = Inr v"
    using Cons.prems(2) getSelector_shrinks[OF sh] by simp
  ultimately show ?case using Cons.IH[of s'] rs r c Cons.prems(2) by simp
qed

subsection \<open>A removed listener is in no list\<close>

lemma confined_shrinks: "shrinks s s' \<Longrightarrow> confined i K s \<Longrightarrow> confined i K s'"
  unfolding shrinks_def confined_def by (metis subsetD)

lemma remove_lists:
  assumes "fst (remove (handle_of k l) s) = None"
  shows "list_at (snd (remove (handle_of k l) s)) k' =
         (if k' = k then filter (\<lambda>l'. l_id l' \<notin> insert (l_id l) (removed s)) (list_at s k)
          else list_at s k')"
proof (cases k)
  case (DataSlot n)
  then obtain ls where "listeners s n = Some ls"
    using assms by (cases "listeners s n") (simp_all add: Let_def)
  then show ?thesis using DataSlot by (cases k') (simp_all add: Let_def)
next
  case (SelectorSlot q)
  then obtain e where "selectors s q = Some e"
    using assms by (cases "selectors s q") (simp_all add: Let_def)
  then show ?thesis using SelectorSlot by (cases k') (simp_all add: Let_def)
qed

lemma remove_drops:
  assumes "confined i {k} s" and "l_id l = i" and "fst (remove (handle_of k l) s) = None"
  shows "confined i {} (snd (remove (handle_of k l) s))"
proof -
  let ?s' = "snd (remove (handle_of k l) s)"
  have "False" if "l' \<in> set (list_at ?s' k')" "l_id l' = i" for k' l'
  proof (cases "k' = k")
    case True
    then show ?thesis using that assms(2) by (simp add: remove_lists[OF assms(3)])
  next
    case False
    then have "l' \<in> set (list_at s k')" using that(1) by (simp add: remove_lists[OF assms(3)])
    then show ?thesis using assms(1) that(2) False by (auto simp: confined_def)
  qed
  moreover have "next_id ?s' = next_id s" using remove_shrinks[of s] by (simp add: shrinks_def)
  ultimately show ?thesis using assms(1) unfolding confined_def by auto
qed

lemma target_of_listener:
  "l \<in> set (list_at s k) \<Longrightarrow> target_exists s (handle_of k l)"
proof (cases k)
  case (DataSlot n)
  assume "l \<in> set (list_at s k)"
  then show ?thesis using DataSlot by (cases "listeners s n") simp_all
next
  case (SelectorSlot q)
  assume "l \<in> set (list_at s k)"
  then show ?thesis using SelectorSlot by (cases "selectors s q") simp_all
qed

text \<open>In a loop that ended without an exception, what the body establishes at one
  element and every body keeps holds at the end.\<close>

lemma forEach_establishes:
  assumes "forEach f xs s = (None, s')" and "x \<in> set xs" and "R s"
    and keepR: "\<And>y s. R s \<Longrightarrow> R (snd (f y s))"
    and est: "\<And>s. R s \<Longrightarrow> fst (f x s) = None \<Longrightarrow> Q (snd (f x s))"
    and keepQ: "\<And>y s. Q s \<Longrightarrow> Q (snd (f y s))"
  shows "Q s'"
  using assms(1,2,3)
proof (induction xs arbitrary: s)
  case Nil
  then show ?case by simp
next
  case (Cons y ys)
  obtain r s1 where rs: "f y s = (r, s1)" by (cases "f y s")
  with Cons.prems(1) have r: "r = None" and rest: "forEach f ys s1 = (None, s')"
    by (cases r; simp)+
  have R1: "R s1" using keepR[OF Cons.prems(3), of y] rs by simp
  show ?case
  proof (cases "x = y")
    case True
    have "Q s1" using est[OF Cons.prems(3)] rs r True by simp
    then have "Q (snd (forEach f ys s1))" by (rule forEach_keeps[rotated]) (rule keepQ)
    then show ?thesis using rest by simp
  next
    case False
    then show ?thesis using Cons.IH[OF rest _ R1] Cons.prems(2) by simp
  qed
qed

lemma invoke_drops:
  assumes "confined i {k} s" and "l_id l = i"
    and "handle_of k l \<in> set (cb_removes (onChange l0))"
    and "fst (invoke l0 args s) = None"
  shows "confined i {} (snd (invoke l0 args s))"
proof -
  let ?s = "s\<lparr>calls := calls s @ [Invoke l0 args]\<rparr>"
  obtain s' where s': "forEach remove (cb_removes (onChange l0)) ?s = (None, s')"
    using assms(4) unfolding invoke_def
    by (cases "forEach remove (cb_removes (onChange l0)) ?s") simp
  have "confined i {} s'"
  proof (rule forEach_establishes[OF s' assms(3), where R = "confined i {k}"])
    show "confined i {k} ?s" using assms(1) by (simp add: confined_def)
  next
    fix h s assume "confined i {k} s"
    then show "confined i {k} (snd (remove h s))"
      using remove_narrows confined_narrows by blast
  next
    fix s assume "confined i {k} s" "fst (remove (handle_of k l) s) = None"
    then show "confined i {} (snd (remove (handle_of k l) s))"
      using assms(2) by (intro remove_drops)
  next
    fix h s assume "confined i {} s"
    then show "confined i {} (snd (remove h s))"
      using remove_narrows confined_narrows by blast
  qed
  then show ?thesis using s' by (simp add: invoke_def)
qed

lemma invoke_confined: "confined i K s \<Longrightarrow> confined i K (snd (invoke l args s))"
  using invoke_shrinks[of s l args] by (rule confined_shrinks)

lemma update_changed:
  assumes "store s name = Some item" and "listeners s name = Some ls"
    and "compareValuesDiff data (item_data item) = Inr True"
  shows "update name data s =
         (case forEach (\<lambda>l. invoke l [data, item_data item]) ls
                 (s\<lparr>store := (store s)(name \<mapsto> item\<lparr>item_data := data\<rparr>)\<rparr>) of
            (Some e, s2) \<Rightarrow> (Some e, s2)
          | (None, s2) \<Rightarrow> forEach notify_selector (item_selectors item) s2)"
  using assms by (simp add: update_def initDataStoreItem_present Let_def)

lemma update_drops:
  assumes "ids_inv s" and "l \<in> set (list_at s k)"
    and "store s name = Some item" and "listeners s name = Some ls"
    and "compareValuesDiff data (item_data item) = Inr True"
    and "l0 \<in> set ls" and "handle_of k l \<in> set (cb_removes (onChange l0))"
    and "fst (update name data s) = None"
  shows "confined (l_id l) {} (snd (update name data s))"
proof -
  let ?s1 = "s\<lparr>store := (store s)(name \<mapsto> item\<lparr>item_data := data\<rparr>)\<rparr>"
  let ?args = "[data, item_data item]"
  obtain r s2 where p: "forEach (\<lambda>l. invoke l ?args) ls ?s1 = (r, s2)"
    by (cases "forEach (\<lambda>l. invoke l ?args) ls ?s1")
  have u: "update name data s =
             (case r of Some e \<Rightarrow> (Some e, s2)
                      | None \<Rightarrow> forEach notify_selector (item_selectors item) s2)"
    using update_changed[OF assms(3,4,5)] p by (simp split: option.splits)
  then have r: "r = None" using assms(8) by (cases r) simp_all
  have c1: "confined (l_id l) {k} ?s1"
    using listener_confined[OF assms(1,2)] by (simp add: confined_def)
  have "confined (l_id l) {} s2"
  proof (rule forEach_establishes[where f = "\<lambda>l. invoke l ?args" and x = l0
        and R = "confined (l_id l) {k}" and Q = "confined (l_id l) {}",
        OF p[unfolded r] assms(6) c1])
    fix s' assume "confined (l_id l) {k} s'" "fst (invoke l0 ?args s') = None"
    then show "confined (l_id l) {} (snd (invoke l0 ?args s'))"
      using assms(7) by (intro invoke_drops[where l = l and k = k]) simp_all
  next
    fix y s' assume "confined (l_id l) {k} s'"
    then show "confined (l_id l) {k} (snd (invoke y ?args s'))" by (rule invoke_confined)
  next
    fix y s' assume "confined (l_id l) {} s'"
    then show "confined (l_id l) {} (snd (invoke y ?args s'))" by (rule invoke_confined)
  qed
  moreover have "narrows s2 (snd (forEach notify_selector (item_selectors item) s2))"
    using forEach_notify_selector_notifies[OF notifies_refl] by (simp add: notifies_def)
  ultimately show ?thesis using u r confined_narrows by simp
qed

lemma computed_calls [simp]: "computed (s\<lparr>calls := c\<rparr>) q = computed s q"
  by (simp add: computed_def)

lemma update_unchanged:
  assumes "store s name = Some item" and "compareValuesDiff v (item_data item) = Inr False"
  shows "update name v s = (None, s)"
  using assms by (simp add: update_def initDataStoreItem_present Let_def)

lemma update_stores:
  assumes "store s name = Some item" and "listeners s name = Some ls"
    and "compareValuesDiff v (item_data item) = Inr True"
  shows "store (snd (update name v s)) = (store s)(name \<mapsto> item\<lparr>item_data := v\<rparr>)"
proof -
  let ?s1 = "s\<lparr>store := (store s)(name \<mapsto> item\<lparr>item_data := v\<rparr>)\<rparr>"
  obtain r s2 where p: "forEach (\<lambda>l. invoke l [v, item_data item]) ls ?s1 = (r, s2)"
    by (cases "forEach (\<lambda>l. invoke l [v, item_data item]) ls ?s1")
  have 1: "notifies ?s1 s2"
    using forEach_invoke_notifies[OF notifies_refl, of ls ?s1 "DataSlot name"
            "[v, item_data item]"] assms(2) p by simp
  have 2: "notifies ?s1 (snd (forEach notify_selector (item_selectors item) s2))"
    by (rule forEach_notify_selector_notifies[OF 1])
  have "notifies ?s1 (snd (update name v s))"
    using update_changed[OF assms] p 1 2 by (cases r) simp_all
  then show ?thesis by (simp add: notifies_def shrinks_def)
qed

lemma forEach_register_dep_exact:
  "forEach (register_dep q) ds s =
     (if \<forall>d \<in> set ds. store s d \<noteq> None then None else Some UndefinedAccessError,
      s\<lparr>store := \<lambda>n. if n \<in> set (known_prefix s ds)
                        then map_option (add_dependent q) (store s n) else store s n\<rparr>)"
proof (induction ds arbitrary: s)
  case Nil
  then show ?case by (simp add: known_prefix_def)
next
  case (Cons d ds)
  show ?case
  proof (cases "store s d")
    case None
    then show ?thesis by (simp add: register_dep_def known_prefix_def)
  next
    case (Some item)
    let ?s1 = "s\<lparr>store := (store s)(d \<mapsto> add_dependent q item)\<rparr>"
    have step: "register_dep q d s = (None, ?s1)"
    proof (cases "q \<in> set (item_selectors item)")
      case True
      then have "(store s)(d \<mapsto> add_dependent q item) = store s"
        using Some by (auto simp: add_dependent_def)
      then show ?thesis using Some True by (simp add: register_dep_def)
    next
      case False
      then show ?thesis using Some by (simp add: register_dep_def add_dependent_def)
    qed
    have dom: "(store ?s1 n \<noteq> None) = (store s n \<noteq> None)" for n using Some by simp
    then have kp: "known_prefix ?s1 ds = known_prefix s ds" by (simp add: known_prefix_def)
    have all: "(\<forall>d' \<in> set ds. store ?s1 d' \<noteq> None) = (\<forall>d' \<in> set (d # ds). store s d' \<noteq> None)"
      using Some by auto
    have kp': "known_prefix s (d # ds) = d # known_prefix s ds"
      using Some by (simp add: known_prefix_def)
    have idem: "add_dependent q (add_dependent q item) = add_dependent q item"
      by (simp add: add_dependent_def)
    have "(\<lambda>n. if n \<in> set (known_prefix ?s1 ds)
               then map_option (add_dependent q) (store ?s1 n) else store ?s1 n) =
          (\<lambda>n. if n \<in> set (known_prefix s (d # ds))
               then map_option (add_dependent q) (store s n) else store s n)"
    proof
      fix n
      show "(if n \<in> set (known_prefix ?s1 ds)
               then map_option (add_dependent q) (store ?s1 n) else store ?s1 n) =
            (if n \<in> set (known_prefix s (d # ds))
               then map_option (add_dependent q) (store s n) else store s n)"
        using Some by (cases "n = d") (simp_all add: kp kp' idem)
    qed
    then show ?thesis
      using Cons.IH[of ?s1] step all by simp
  qed
qed

lemma qualify_bare: "\<not> prefix SELECTOR_PREFIX name \<Longrightarrow> qualify name = SELECTOR_PREFIX @ name"
  by (simp add: qualify_def)

lemma qualify_qualified: "qualify (SELECTOR_PREFIX @ name) = SELECTOR_PREFIX @ name"
  by (simp add: qualify_def)

lemma qualify_idem: "qualify (qualify name) = qualify name"
  by (simp add: qualify_def)

lemma initDataStore_qualified:
  "initDataStore data (map qualify sels) s = initDataStore data sels s"
proof -
  have "fold (\<lambda>selectorName s'.
                s'\<lparr>selectors := (selectors s')(qualify selectorName \<mapsto> placeholder)\<rparr>)
             (map qualify sels) s' =
        fold (\<lambda>selectorName s'.
                s'\<lparr>selectors := (selectors s')(qualify selectorName \<mapsto> placeholder)\<rparr>)
             sels s'" for s'
    by (induction sels arbitrary: s') (simp_all add: qualify_idem)
  then show ?thesis by (simp add: initDataStore_def)
qed

lemma fold_placeholders:
  "selectors (fold (\<lambda>selectorName s'.
                s'\<lparr>selectors := (selectors s')(qualify selectorName \<mapsto> placeholder)\<rparr>) sels s) q =
     (if q \<in> qualify ` set sels then Some placeholder else selectors s q) \<and>
   store (fold (\<lambda>selectorName s'.
                s'\<lparr>selectors := (selectors s')(qualify selectorName \<mapsto> placeholder)\<rparr>) sels s) =
     store s \<and>
   listeners (fold (\<lambda>selectorName s'.
                s'\<lparr>selectors := (selectors s')(qualify selectorName \<mapsto> placeholder)\<rparr>) sels s) =
     listeners s"
  by (induction sels arbitrary: s) auto

lemma fold_items_keep:
  "store s m \<noteq> None \<Longrightarrow>
   store (fold (\<lambda>(name, initialValue) s'. initDataStoreItem name initialValue s') data s) m =
     store s m \<and>
   listeners (fold (\<lambda>(name, initialValue) s'. initDataStoreItem name initialValue s') data s) m =
     listeners s m"
proof (induction data arbitrary: s)
  case Nil
  then show ?case by simp
next
  case (Cons p data)
  obtain n v where p: "p = (n, v)" by (cases p)
  have 1: "store (initDataStoreItem n v s) m = store s m"
      "listeners (initDataStoreItem n v s) m = listeners s m"
    using Cons.prems by (auto simp: initDataStoreItem_def)
  then have "store (initDataStoreItem n v s) m \<noteq> None" using Cons.prems by simp
  from Cons.IH[OF this] show ?case using p 1 by simp
qed

subsection \<open>Removal by a listener body in any call\<close>

lemma silent_refl: "silent s s"
  by (simp add: silent_def)

lemma silent_trans: "silent s s' \<Longrightarrow> silent s' s'' \<Longrightarrow> silent s s''"
  by (simp add: silent_def)

lemma silentI:
  assumes "calls s' = calls s" and "\<And>h. target_exists s h \<Longrightarrow> target_exists s' h"
    and "narrows s s' \<or> joins s s'"
  shows "silent s s'"
  unfolding silent_def using assms confined_narrows confined_joins by blast

lemma target_exists_listeners_upd:
  "target_exists s h \<Longrightarrow> target_exists (s\<lparr>listeners := (listeners s)(n \<mapsto> ls)\<rparr>) h"
  by (cases h) simp_all

lemma target_exists_selectors_upd:
  "target_exists s h \<Longrightarrow> target_exists (s\<lparr>selectors := (selectors s)(q \<mapsto> e)\<rparr>) h"
  by (cases h) simp_all

lemma target_exists_store_upd [simp]:
  "target_exists (s\<lparr>store := x\<rparr>) h = target_exists s h"
  by (cases h) simp_all

lemma target_exists_flags [simp]:
  "target_exists (s\<lparr>removed := R, next_id := N\<rparr>) h = target_exists s h"
  by (cases h) simp_all

lemma initDataStoreItem_silent: "silent s (initDataStoreItem n v s)"
proof (rule silentI)
  show "calls (initDataStoreItem n v s) = calls s" by (simp add: initDataStoreItem_def)
  show "target_exists (initDataStoreItem n v s) h" if "target_exists s h" for h
    using that by (cases h) (simp_all add: initDataStoreItem_def)
  show "narrows s (initDataStoreItem n v s) \<or> joins s (initDataStoreItem n v s)"
    by (simp add: initDataStoreItem_narrows)
qed

lemma store_upd_silent: "silent s (s\<lparr>store := x\<rparr>)"
  by (rule silentI) (simp_all add: narrows_store_upd)

lemma register_dep_silent: "silent s (snd (register_dep q d s))"
  using register_dep_result[of q d s] silent_refl store_upd_silent by auto

lemma forEach_register_dep_silent: "silent s (snd (forEach (register_dep q) ds s))"
  by (rule forEach_keeps[where R = "silent s"])
     (auto intro: silent_trans register_dep_silent silent_refl)

lemma selectors_reset_silent:
  "sel_listeners e = [] \<Longrightarrow> silent s (s\<lparr>selectors := (selectors s)(q \<mapsto> e)\<rparr>)"
  by (rule silentI) (simp_all add: narrows_selectors_reset target_exists_selectors_upd)

lemma remove_silent: "silent s (snd (remove h s))"
  by (rule silentI)
     (simp_all add: remove_calls remove_narrows target_exists_shrinks[OF remove_shrinks])

lemma defineSelector_silent: "silent s (snd (defineSelector nm depNames t s))"
  using defineSelector_result[of nm depNames t s]
proof (elim disjE exE conjE)
  fix name ds s1
  assume f: "forEach (register_dep (qualify name)) ds s = (fst (defineSelector nm depNames t s), s1)"
    and r: "if fst (defineSelector nm depNames t s) = None
       then snd (defineSelector nm depNames t s) =
              s1\<lparr>selectors := (selectors s1)
                    (qualify name \<mapsto> \<lparr>sel_transformer = t, sel_deps = ds, sel_listeners = []\<rparr>)\<rparr>
       else snd (defineSelector nm depNames t s) = s1"
  have 1: "silent s s1" using forEach_register_dep_silent[of s "qualify name" ds] f by simp
  show ?thesis
  proof (cases "fst (defineSelector nm depNames t s) = None")
    case True
    then show ?thesis using r 1 selectors_reset_silent[of _ s1] silent_trans by fastforce
  next
    case False
    then show ?thesis using r 1 by simp
  qed
qed (simp add: silent_refl)

lemma initDataStore_silent: "silent s (initDataStore data sels s)"
proof -
  let ?f = "\<lambda>(name, initialValue) s'. initDataStoreItem name initialValue s'"
  let ?g = "\<lambda>selectorName s'.
              s'\<lparr>selectors := (selectors s')(qualify selectorName \<mapsto> placeholder)\<rparr>"
  have "silent s (fold ?f data s)"
    by (rule fold_keeps[where R = "silent s"])
       (auto intro: silent_trans initDataStoreItem_silent silent_refl)
  then have "silent s (fold ?g sels (fold ?f data s))"
  proof (rule fold_keeps[where R = "silent s", rotated])
    fix x s' assume "silent s s'"
    moreover have "silent s' (?g x s')"
      by (rule selectors_reset_silent) (simp add: placeholder_def)
    ultimately show "silent s (?g x s')" by (rule silent_trans)
  qed
  then show ?thesis by (simp add: initDataStore_def)
qed

lemma push_data_silent:
  assumes "listeners s n = Some ls" and "l_id l = next_id s"
  shows "silent s (s\<lparr>listeners := (listeners s)(n \<mapsto> ls @ [l]), removed := R,
                    next_id := Suc (next_id s)\<rparr>)"
proof (rule silentI)
  show "target_exists (s\<lparr>listeners := (listeners s)(n \<mapsto> ls @ [l]), removed := R,
                    next_id := Suc (next_id s)\<rparr>) h" if "target_exists s h" for h
    using that by (cases h) simp_all
qed (simp_all add: joins_data[OF assms])

lemma push_selector_silent:
  assumes "selectors s q = Some e" and "l_id l = next_id s"
  shows "silent s (s\<lparr>selectors := (selectors s)
                      (q \<mapsto> e\<lparr>sel_listeners := sel_listeners e @ [l]\<rparr>),
                    removed := R, next_id := Suc (next_id s)\<rparr>)"
proof (rule silentI)
  show "target_exists (s\<lparr>selectors := (selectors s)
                      (q \<mapsto> e\<lparr>sel_listeners := sel_listeners e @ [l]\<rparr>),
                    removed := R, next_id := Suc (next_id s)\<rparr>) h" if "target_exists s h" for h
    using that by (cases h) simp_all
qed (simp_all add: joins_selector[OF assms])

text \<open>What the silent steps and the invocations keep, every call keeps.\<close>

lemma notify_selector_keeps:
  assumes inv: "\<And>l a s. R s \<Longrightarrow> R (snd (invoke l a s))" and "R s"
  shows "R (snd (notify_selector q s))"
proof (cases "selectors s q")
  case None
  then show ?thesis using assms(2) by (simp add: notify_selector_def)
next
  case (Some e)
  let ?body = "\<lambda>l s'. case getSelector s' q of
                         Inl e \<Rightarrow> (Some e, s') | Inr v \<Rightarrow> invoke l [v] s'"
  have "R (snd (forEach ?body (sel_listeners e) s))"
    using assms(2)
  proof (rule forEach_keeps[where R = R, rotated])
    fix l s'' assume "R s''"
    then show "R (snd (?body l s''))" using inv by (cases "getSelector s'' q") simp_all
  qed
  then show ?thesis using Some by (simp add: notify_selector_def)
qed

lemma update_keeps:
  assumes inv: "\<And>l a s. R s \<Longrightarrow> R (snd (invoke l a s))"
    and sil: "\<And>s s'. R s \<Longrightarrow> silent s s' \<Longrightarrow> R s'"
    and "R s0"
  shows "R (snd (update name data s0))"
proof -
  let ?s = "initDataStoreItem name JUndefined s0"
  have 0: "R ?s" using sil[OF assms(3) initDataStoreItem_silent] .
  obtain item where item: "store ?s name = Some item"
    using initDataStoreItem_store[of name JUndefined s0] by blast
  let ?s1 = "?s\<lparr>store := (store ?s)(name \<mapsto> item\<lparr>item_data := data\<rparr>)\<rparr>"
  have 1: "R ?s1" using sil[OF 0 store_upd_silent] .
  show ?thesis
  proof (cases "compareValuesDiff data (item_data item)")
    case (Inl e)
    then show ?thesis using item 0 by (simp add: update_def Let_def)
  next
    case (Inr diff)
    show ?thesis
    proof (cases "diff \<and> listeners ?s name \<noteq> None")
      case False
      then have "snd (update name data s0) = ?s \<or> snd (update name data s0) = ?s1"
        using item Inr by (auto simp: update_def Let_def)
      then show ?thesis using 0 1 by auto
    next
      case True
      then obtain ls where ls: "listeners ?s name = Some ls" by blast
      let ?p = "forEach (\<lambda>l. invoke l [data, item_data item]) ls ?s1"
      have 2: "R (snd ?p)"
        by (rule forEach_keeps[where R = R]) (simp_all add: inv 1)
      have 3: "R (snd (forEach notify_selector (item_selectors item) (snd ?p)))"
        by (rule forEach_keeps[where R = R]) (simp_all add: notify_selector_keeps inv 2)
      have "snd (update name data s0) = snd ?p \<or>
            snd (update name data s0) = snd (forEach notify_selector (item_selectors item) (snd ?p))"
        using item Inr True ls by (cases ?p) (auto simp: update_def Let_def split: option.splits)
      then show ?thesis using 2 3 by auto
    qed
  qed
qed

lemma addDataListener_keeps:
  assumes inv: "\<And>l a s. R s \<Longrightarrow> R (snd (invoke l a s))"
    and sil: "\<And>s s'. R s \<Longrightarrow> silent s s' \<Longrightarrow> R s'"
    and "R s0"
  shows "R (snd (addDataListener n cb imm s0))"
proof -
  let ?s = "initDataStoreItem n JUndefined s0"
  let ?l = "\<lparr>l_id = next_id ?s, onChange = cb\<rparr>"
  have 0: "R ?s" using sil[OF assms(3) initDataStoreItem_silent] .
  show ?thesis
  proof (cases "listeners ?s n")
    case None
    then show ?thesis using 0 by (simp add: addDataListener_def Let_def)
  next
    case (Some ls)
    let ?s1 = "?s\<lparr>listeners := (listeners ?s)(n \<mapsto> ls @ [?l]),
                 removed := removed ?s - {next_id ?s}, next_id := Suc (next_id ?s)\<rparr>"
    have 1: "R ?s1" by (rule sil[OF 0 push_data_silent[OF Some]]) simp
    have "snd (addDataListener n cb imm s0) = ?s1 \<or>
          (\<exists>args. snd (addDataListener n cb imm s0) = snd (invoke ?l args ?s1))"
    proof (cases "imm \<and> store ?s1 n \<noteq> None")
      case False
      then show ?thesis
        using Some unfolding addDataListener_def Let_def
        by (auto split: option.splits)
    next
      case True
      then obtain item where item: "store ?s1 n = Some item" by blast
      obtain r s2 where "invoke ?l [item_data item] ?s1 = (r, s2)"
        by (cases "invoke ?l [item_data item] ?s1")
      then have "snd (addDataListener n cb imm s0) = snd (invoke ?l [item_data item] ?s1)"
        using Some True item
        unfolding addDataListener_def Let_def
        by (cases r) simp_all
      then show ?thesis by blast
    qed
    then show ?thesis using 1 inv by auto
  qed
qed

lemma addSelectorListener_keeps:
  assumes inv: "\<And>l a s. R s \<Longrightarrow> R (snd (invoke l a s))"
    and sil: "\<And>s s'. R s \<Longrightarrow> silent s s' \<Longrightarrow> R s'"
    and "R s"
  shows "R (snd (addSelectorListener n cb imm s))"
proof (cases "selectors s (qualify n)")
  case None
  then show ?thesis using assms(3) by (simp add: addSelectorListener_def Let_def)
next
  case (Some e)
  let ?l = "\<lparr>l_id = next_id s, onChange = cb\<rparr>"
  let ?s1 = "s\<lparr>selectors := (selectors s)
                          (qualify n \<mapsto> e\<lparr>sel_listeners := sel_listeners e @ [?l]\<rparr>),
               removed := removed s - {next_id s}, next_id := Suc (next_id s)\<rparr>"
  have 1: "R ?s1" by (rule sil[OF assms(3) push_selector_silent[OF Some]]) simp
  have "snd (addSelectorListener n cb imm s) = ?s1 \<or>
        (\<exists>args. snd (addSelectorListener n cb imm s) = snd (invoke ?l args ?s1))"
  proof (cases "getSelector ?s1 (qualify n)")
    case (Inl err)
    then show ?thesis
      using Some unfolding addSelectorListener_def Let_def by simp
  next
    case (Inr v)
    obtain r s2 where "invoke ?l [v] ?s1 = (r, s2)" by (cases "invoke ?l [v] ?s1")
    then have "imm \<Longrightarrow> snd (addSelectorListener n cb imm s) = snd (invoke ?l [v] ?s1)"
      using Some Inr unfolding addSelectorListener_def Let_def
      by (cases r) simp_all
    moreover have "\<not> imm \<Longrightarrow> snd (addSelectorListener n cb imm s) = ?s1"
      using Some unfolding addSelectorListener_def Let_def by simp
    ultimately show ?thesis by blast
  qed
  then show ?thesis using 1 inv by auto
qed

lemma perform_keeps:
  assumes inv: "\<And>l a s. R s \<Longrightarrow> R (snd (invoke l a s))"
    and sil: "\<And>s s'. R s \<Longrightarrow> silent s s' \<Longrightarrow> R s'"
    and "R s"
  shows "R (perform c s)"
proof (cases c)
  case (CInitDataStore data sels)
  then show ?thesis using sil[OF assms(3) initDataStore_silent] by simp
next
  case (CUpdate name v)
  then show ?thesis using update_keeps[of R, OF inv sil assms(3)] by simp
next
  case (CDefineSelector nm deps t)
  then show ?thesis using sil[OF assms(3) defineSelector_silent] by simp
next
  case (CRemove h)
  then show ?thesis using sil[OF assms(3) remove_silent] by simp
next
  case (CAddSelectorListener n cb imm)
  then show ?thesis using addSelectorListener_keeps[of R, OF inv sil assms(3)] by simp
next
  case (CAddDataListener n cb imm)
  then show ?thesis using addDataListener_keeps[of R, OF inv sil assms(3)] by simp
qed

lemma removing_silent:
  assumes "removing i k l0 n t" and "silent t t'"
  shows "removing i k l0 n t'"
  using assms unfolding removing_def silent_def by auto

lemma removing_invoke:
  assumes "removing i k l0 n t" and "handle_of k l \<in> set (cb_removes (onChange l0))"
    and "l_id l = i"
  shows "removing i k l0 n (snd (invoke l' a t))"
proof -
  let ?t' = "snd (invoke l' a t)"
  have sh: "shrinks t ?t'" by (rule invoke_shrinks)
  have c: "calls ?t' = calls t @ [Invoke l' a]" by (rule invoke_calls)
  have n: "n \<le> length (calls t)" and t: "\<forall>h \<in> set (cb_removes (onChange l0)). target_exists t h"
    and k: "confined i {k} t"
    and d: "(\<exists>a. Invoke l0 a \<in> set (drop n (calls t))) \<longrightarrow> confined i {} t"
    using assms(1) by (simp_all add: removing_def)
  have "confined i {} ?t'" if "Invoke l0 b \<in> set (drop n (calls ?t'))" for b
  proof (cases "Invoke l0 b \<in> set (drop n (calls t))")
    case True
    then show ?thesis using d invoke_confined by blast
  next
    case False
    then have "l' = l0" using that n by (simp add: c)
    moreover have "fst (invoke l0 a t) = None" using t by (rule invoke_ok)
    ultimately show ?thesis using invoke_drops[OF k assms(3,2)] by simp
  qed
  then show ?thesis
    using n t k sh c invoke_confined[OF k] unfolding removing_def
    by (auto simp: target_exists_shrinks[OF sh])
qed

lemma perform_removing:
  assumes "removing i k l0 n s" and "handle_of k l \<in> set (cb_removes (onChange l0))"
    and "l_id l = i"
  shows "removing i k l0 n (perform c s)"
  using assms(1)
  by (rule perform_keeps[where R = "removing i k l0 n", rotated 2])
     (auto intro: removing_invoke[OF _ assms(2,3)] removing_silent)

lemma perform_removes:
  assumes "ids_inv s" and "l \<in> set (list_at s k)"
    and "handle_of k l \<in> set (cb_removes (onChange l0))"
    and "\<forall>h \<in> set (cb_removes (onChange l0)). target_exists s h"
    and "Invoke l0 args \<in> set (drop (length (calls s)) (calls (perform c s)))"
  shows "confined (l_id l) {} (perform c s)"
proof -
  have "removing (l_id l) k l0 (length (calls s)) s"
    using listener_confined[OF assms(1,2)] assms(4) by (simp add: removing_def)
  then have "removing (l_id l) k l0 (length (calls s)) (perform c s)"
    using assms(3) by (rule perform_removing) simp
  then show ?thesis using assms(5) unfolding removing_def by blast
qed

subsection \<open>The passes of an \<^verbatim>\<open>update\<close>\<close>













text \<open>Where every dependent selector is defined and the bodies of the listeners concerned
  remove nothing, the state after the call is that before it with the value stored and
  the invocations recorded.\<close>

lemma update_without_removals:
  assumes "reachable s"
    and "store s name = Some item"
    and "compareValuesDiff v (item_data item) = Inr True"
    and "\<forall>l \<in> set (list_at s (DataSlot name)). no_removes l"
    and "\<forall>q \<in> set (item_selectors item).
           selectors s q \<noteq> None \<and> (\<forall>l \<in> set (list_at s (SelectorSlot q)). no_removes l)"
  shows "update name v s =
           (None, s\<lparr>store := (store s)(name \<mapsto> item\<lparr>item_data := v\<rparr>),
                     calls := calls s @
                       map (\<lambda>l. Invoke l [v, item_data item]) (list_at s (DataSlot name)) @
                       concat (map (\<lambda>q. map (\<lambda>l. Invoke l
                                 [computed (s\<lparr>store := (store s)(name \<mapsto> item\<lparr>item_data := v\<rparr>)\<rparr>) q])
                                 (list_at s (SelectorSlot q)))
                          (item_selectors item))\<rparr>) \<and>
         (\<forall>q \<in> set (item_selectors item).
            \<exists>w. getSelector (s\<lparr>store := (store s)(name \<mapsto> item\<lparr>item_data := v\<rparr>)\<rparr>) q = Inr w)"
proof -
  let ?s1 = "s\<lparr>store := (store s)(name \<mapsto> item\<lparr>item_data := v\<rparr>)\<rparr>"
  have inv: "dom_inv s" using assms(1) reachable_inv by blast
  then obtain ls where ls: "listeners s name = Some ls"
    using assms(2) unfolding dom_inv_def by fastforce
  then have l1: "list_at s (DataSlot name) = ls" by simp
  let ?s2 = "?s1\<lparr>calls := calls ?s1 @ map (\<lambda>l. Invoke l [v, item_data item]) ls\<rparr>"
  have p1: "forEach (\<lambda>l. invoke l [v, item_data item]) ls ?s1 = (None, ?s2)"
    using assms(4) unfolding l1 by (intro forEach_invoke_no_removes)
  have inv1: "dom_inv ?s1" using inv assms(2) by (intro dom_inv_store_upd) simp_all
  have g: "\<exists>w. getSelector ?s1 q = Inr w" if "q \<in> set (item_selectors item)" for q
  proof -
    from that assms(5) obtain e where e: "selectors ?s1 q = Some e" by auto
    then have "\<forall>d \<in> set (sel_deps e). store ?s1 d \<noteq> None"
      using inv1 unfolding dom_inv_def by blast
    then show ?thesis using e by (intro getSelector_ok)
  qed
  have p2: "forEach notify_selector (item_selectors item) ?s2 =
         (None, ?s2\<lparr>calls := calls ?s2 @
             concat (map (\<lambda>q. map (\<lambda>l. Invoke l [computed ?s2 q])
                                 (list_at ?s2 (SelectorSlot q))) (item_selectors item))\<rparr>)"
    using g assms(5) by (intro forEach_notify_selector_no_removes) simp_all
  have "update name v s = forEach notify_selector (item_selectors item) ?s2"
    using update_changed[OF assms(2) ls assms(3)] p1 by simp
  then show ?thesis using p2 g l1 by simp
qed

subsection \<open>The example stores, evaluated\<close>

lemma store_with_double_eq:
  "store_with_double =
     \<lparr>store = [''x'' \<mapsto> \<lparr>item_data = JNum 1, item_selectors = [''selector::double'']\<rparr>],
      listeners = [''x'' \<mapsto> []],
      selectors = [''selector::double'' \<mapsto>
         \<lparr>sel_transformer = doubled, sel_deps = [''x''],
          sel_listeners = [\<lparr>l_id = 0, onChange = Callback 7 []\<rparr>]\<rparr>],
      removed = {}, next_id = 1, calls = []\<rparr>"
  by (simp add: store_with_double_def initDataStore_def initDataStoreItem_def constructor_def
      defineSelector_def register_dep_def addSelectorListener_def qualify_def SELECTOR_PREFIX_def
      Let_def)

lemmas eval_defs =
  initDataStore_def initDataStoreItem_def constructor_def defineSelector_def register_dep_def
  addSelectorListener_def addDataListener_def qualify_def SELECTOR_PREFIX_def Let_def
  update_def notify_selector_def getSelector_def invoke_def get_def
  compareValuesDiff_def compareStrategies_def isShallowDiff_def inherited_def
  prototype_functions_def
  bothValueNotFunction_def notFunction_def nonOnbjectValueEquals_def
  dec_int_def dec_nat.simps invocations_of_def doubled_def placeholder_def

lemma observed_store_eq:
  "observed_store =
     \<lparr>store = [''x'' \<mapsto> \<lparr>item_data = JNum 1, item_selectors = [''selector::double'']\<rparr>],
      listeners = [''x'' \<mapsto>
         [\<lparr>l_id = 1, onChange = Callback 0 [DataHandle ''x'' 2, DataHandle ''x'' 1]\<rparr>,
          \<lparr>l_id = 2, onChange = Callback 1 []\<rparr>]],
      selectors = [''selector::double'' \<mapsto>
         \<lparr>sel_transformer = doubled, sel_deps = [''x''],
          sel_listeners =
            [\<lparr>l_id = 0, onChange = Callback 7 []\<rparr>,
             \<lparr>l_id = 3, onChange = Callback 2 [SelectorHandle ''selector::double'' 4]\<rparr>,
             \<lparr>l_id = 4, onChange = Callback 3 []\<rparr>]\<rparr>],
      removed = {}, next_id = 5, calls = []\<rparr>"
  by (simp add: observed_store_def store_with_double_eq addSelectorListener_def
      addDataListener_def initDataStoreItem_def qualify_def SELECTOR_PREFIX_def Let_def
      eval_nat_numeral)

lemma reachable_observed_store: "reachable observed_store"
  unfolding observed_store_def store_with_double_def by (intro reachable.intros)

lemma observed_store_update:
  "fst (update ''x'' (JNum 5) observed_store) = None \<and>
   calls (snd (update ''x'' (JNum 5) observed_store)) =
     [Invoke \<lparr>l_id = 1, onChange = Callback 0 [DataHandle ''x'' 2, DataHandle ''x'' 1]\<rparr>
        [JNum 5, JNum 1],
      Invoke \<lparr>l_id = 2, onChange = Callback 1 []\<rparr> [JNum 5, JNum 1],
      Invoke \<lparr>l_id = 0, onChange = Callback 7 []\<rparr> [JNum 10],
      Invoke \<lparr>l_id = 3, onChange = Callback 2 [SelectorHandle ''selector::double'' 4]\<rparr>
        [JNum 10],
      Invoke \<lparr>l_id = 4, onChange = Callback 3 []\<rparr> [JNum 10]]"
  by (simp add: observed_store_eq eval_defs)





lemma watched_store_eq:
  "watched_store =
     \<lparr>store = [''x'' \<mapsto> \<lparr>item_data = JNum 1, item_selectors = [''selector::double'']\<rparr>],
      listeners = [''x'' \<mapsto>
         [\<lparr>l_id = 1, onChange = Callback 0 []\<rparr>, \<lparr>l_id = 2, onChange = Callback 1 []\<rparr>]],
      selectors = [''selector::double'' \<mapsto>
         \<lparr>sel_transformer = doubled, sel_deps = [''x''],
          sel_listeners = [\<lparr>l_id = 0, onChange = Callback 7 []\<rparr>]\<rparr>],
      removed = {}, next_id = 3, calls = []\<rparr>"
  by (simp add: watched_store_def store_with_double_eq addDataListener_def
      initDataStoreItem_def Let_def eval_nat_numeral)

lemma reachable_watched_store: "reachable watched_store"
  unfolding watched_store_def store_with_double_def by (intro reachable.intros)

lemma first_key_store_eq:
  "first_key_store =
     \<lparr>store = [''x'' \<mapsto> \<lparr>item_data = JObj [(''a'', JNum 1), (''b'', JNum 1)],
                       item_selectors = []\<rparr>],
      listeners = [''x'' \<mapsto> [\<lparr>l_id = 0, onChange = Callback 0 []\<rparr>]],
      selectors = Map.empty, removed = {}, next_id = 1, calls = []\<rparr>"
  by (simp add: first_key_store_def initDataStore_def initDataStoreItem_def constructor_def
      addDataListener_def Let_def)

subsection \<open>The comparator\<close>

text \<open>
  Where the first value has no own property named \<^verbatim>\<open>hasOwnProperty\<close>, the comparator
  returns, and its result is that of the reference definition.
\<close>

lemma compareValuesDiff_unshadowed:
  assumes "''hasOwnProperty'' \<notin> set (Object_keys a)"
  shows "compareValuesDiff a b = Inr (reference_diff a b)"
proof (cases a)
  case (JObj ps)
  then have own: "map_of ps ''hasOwnProperty'' = None"
    using assms by (simp add: map_of_eq_None_iff)
  show ?thesis
  proof (cases ps)
    case Nil
    then show ?thesis using JObj
      by (simp add: compareValuesDiff_def compareStrategies_def reference_diff_def
          isShallowDiff_def)
  next
    case (Cons p ps')
    obtain k v where p: "p = (k, v)" by (cases p)
    have a: "a = JObj ((k, v) # ps')" using JObj Cons p by simp
    have "map_of ((k, v) # ps') ''hasOwnProperty'' = None" using own Cons p by simp
    then have h: "hasOwnProperty (JObj ((k, v) # ps')) k = Inr True" by simp
    have loop: "isShallowDiff_loop (k # map fst ps') (JObj ((k, v) # ps')) b =
      (let valueA = get_prop (JObj ((k, v) # ps')) k; valueB = get_prop b k in
       if bothValueNotFunction valueA valueB \<and> (\<not> isObject valueA \<and> \<not> isObject valueB)
       then Inr (\<not> nonOnbjectValueEquals valueA valueB)
       else Inr True)"
      by (simp only: isShallowDiff_loop.simps h sum.case if_True)
    show ?thesis
      unfolding a compareValuesDiff_def compareStrategies_def reference_diff_def isShallowDiff_def
      by (simp add: loop bothValueNotFunction_def notFunction_def nonOnbjectValueEquals_def
          Let_def del: isShallowDiff_loop.simps hasOwnProperty.simps get_prop.simps)
  qed
qed (simp_all add: compareValuesDiff_def compareStrategies_def reference_diff_def)

text \<open>
  A read that misses the own properties goes on to \<^verbatim>\<open>Object.prototype\<close>: for
  \<open>{constructor: undefined}\<close> against \<open>{x: undefined}\<close> the second value read is the
  inherited function \<^verbatim>\<open>Object\<close>, and the values are declared different.
\<close>

lemma compareValuesDiff_inherited_read:
  "get_prop (JObj [(''x'', JUndefined)]) ''constructor'' = JFun 0 (\<lambda>k. True) \<and>
   compareValuesDiff (JObj [(''constructor'', JUndefined)]) (JObj [(''x'', JUndefined)]) =
     Inr True"
  by (simp add: compareValuesDiff_def compareStrategies_def isShallowDiff_def
      inherited_def prototype_functions_def bothValueNotFunction_def notFunction_def)

text \<open>
  C3. The comparator is the reference definition of the claim except where the first of
  two plain objects has an own property named \<^verbatim>\<open>hasOwnProperty\<close>. For
  \<open>{hasOwnProperty: 1}\<close> against \<open>{x: 1}\<close> rule 1 of the claim inspects the first key and
  declares the values different; the code calls \<^verbatim>\<open>a.hasOwnProperty(key)\<close>, which is the
  number, and throws. With a function there that returns false, as in
  \<open>{hasOwnProperty: f, y: 1}\<close> against \<open>{hasOwnProperty: f, y: 2}\<close>, the loop passes
  over every key and the code reports no difference, where rule 1 declares the values
  different.
\<close>

theorem compareValuesDiff_shadowed_hasOwnProperty:
  "compareValuesDiff (JObj [(''hasOwnProperty'', JNum 1)]) (JObj [(''x'', JNum 1)]) =
     Inl NotCallableError \<and>
   reference_diff (JObj [(''hasOwnProperty'', JNum 1)]) (JObj [(''x'', JNum 1)]) = True \<and>
   compareValuesDiff
     (JObj [(''hasOwnProperty'', JFun 1 (\<lambda>key. False)), (''y'', JNum 1)])
     (JObj [(''hasOwnProperty'', JFun 1 (\<lambda>key. False)), (''y'', JNum 2)]) = Inr False \<and>
   reference_diff
     (JObj [(''hasOwnProperty'', JFun 1 (\<lambda>key. False)), (''y'', JNum 1)])
     (JObj [(''hasOwnProperty'', JFun 1 (\<lambda>key. False)), (''y'', JNum 2)]) = True"
  by (simp add: compareValuesDiff_def compareStrategies_def reference_diff_def isShallowDiff_def
      inherited_def prototype_functions_def)

subsection \<open>Reading\<close>

text \<open>
  C4. \<^verbatim>\<open>get\<close> of a raw name (one without the selector prefix) that has no entry in the
  value registry fails with \<open>NotInitializedError\<close>; \<^verbatim>\<open>get\<close> and \<^verbatim>\<open>getSelector\<close> of a
  prefixed name that has no selector entry fail with \<open>UndefinedSelectorError\<close>.
\<close>

theorem get_unknown_name_fails:
  "(\<not> prefix SELECTOR_PREFIX raw \<and> store s raw = None
      \<longrightarrow> get s raw = Inl NotInitializedError) \<and>
   (prefix SELECTOR_PREFIX sel \<and> selectors s sel = None
      \<longrightarrow> get s sel = Inl UndefinedSelectorError \<and>
          getSelector s sel = Inl UndefinedSelectorError)"
  by (simp add: get_def getSelector_def)

theorem get_unknown_name_fails_witness:
  "\<not> prefix SELECTOR_PREFIX ''uuid'' \<and> store constructor ''uuid'' = None \<and>
   get constructor ''uuid'' = Inl NotInitializedError \<and>
   prefix SELECTOR_PREFIX ''selector::formatted'' \<and>
   selectors constructor ''selector::formatted'' = None \<and>
   get constructor ''selector::formatted'' = Inl UndefinedSelectorError \<and>
   getSelector constructor ''selector::formatted'' = Inl UndefinedSelectorError"
  using get_unknown_name_fails [of "''uuid''" constructor "''selector::formatted''"]
  by (simp add: SELECTOR_PREFIX_def constructor_def)

subsection \<open>Redefining a selector\<close>

text \<open>
  C9. In a reachable state, a successful \<^verbatim>\<open>defineSelector\<close> under the qualified name of
  a selector that has listeners replaces the entry by one with the new transformer and
  dependencies and an empty listener list; no later sequence of calls invokes a listener
  the selector had before: its recorded invocations stay those made before the
  redefinition.
\<close>

theorem redefinition_drops_listeners:
  assumes "reachable s"
    and "selectors s (qualify name) = Some entry"
    and "l \<in> set (sel_listeners entry)"
    and "fst (defineSelector (JStr name) depNames t s) = None"
  shows "selectors (snd (defineSelector (JStr name) depNames t s)) (qualify name) =
           Some \<lparr>sel_transformer = t, sel_deps = as_array depNames, sel_listeners = []\<rparr> \<and>
         (\<forall>cs. invocations_of (l_id l)
                  (calls (perform_all cs (snd (defineSelector (JStr name) depNames t s)))) =
                invocations_of (l_id l) (calls s))"
proof -
  let ?s' = "snd (defineSelector (JStr name) depNames t s)"
  have "l \<in> set (list_at s (SelectorSlot (qualify name)))" using assms(2,3) by simp
  then have "confined (l_id l) {} ?s'"
    using reachable_inv[OF assms(1)] assms(4) by (intro defineSelector_drops) simp_all
  then have "invocations_of (l_id l) (calls (perform_all cs ?s')) =
             invocations_of (l_id l) (calls ?s')" for cs
    using perform_all_dropped by blast
  then show ?thesis using defineSelector_entry[OF assms(4)] by (simp add: defineSelector_calls)
qed

theorem redefinition_drops_listeners_witness:
  "reachable store_with_double \<and>
   selectors store_with_double (qualify ''double'') =
     Some \<lparr>sel_transformer = doubled, sel_deps = [''x''],
           sel_listeners = [\<lparr>l_id = 0, onChange = Callback 7 []\<rparr>]\<rparr> \<and>
   fst (defineSelector (JStr ''double'') (DepSingle ''x'') (\<lambda>vs. JNull) store_with_double) = None \<and>
   selectors (snd (defineSelector (JStr ''double'') (DepSingle ''x'') (\<lambda>vs. JNull) store_with_double))
       (qualify ''double'') =
     Some \<lparr>sel_transformer = (\<lambda>vs. JNull), sel_deps = [''x''], sel_listeners = []\<rparr> \<and>
   (\<forall>cs. invocations_of 0
            (calls (perform_all cs
               (snd (defineSelector (JStr ''double'') (DepSingle ''x'') (\<lambda>vs. JNull)
                       store_with_double)))) = [])"
proof -
  have r: "reachable store_with_double"
    unfolding store_with_double_def by (intro reachable.intros)
  have e: "selectors store_with_double (qualify ''double'') =
     Some \<lparr>sel_transformer = doubled, sel_deps = [''x''],
           sel_listeners = [\<lparr>l_id = 0, onChange = Callback 7 []\<rparr>]\<rparr>"
    by (simp add: store_with_double_eq qualify_def SELECTOR_PREFIX_def)
  have f: "fst (defineSelector (JStr ''double'') (DepSingle ''x'') (\<lambda>vs. JNull) store_with_double) = None"
    by (simp add: store_with_double_eq defineSelector_def register_dep_def qualify_def
        SELECTOR_PREFIX_def Let_def)
  have c: "calls store_with_double = []" by (simp add: store_with_double_eq)
  show ?thesis
    using redefinition_drops_listeners[OF r e _ f, of "\<lparr>l_id = 0, onChange = Callback 7 []\<rparr>"]
      r e f c
    by (simp add: invocations_of_def)
qed

subsection \<open>Removing a handle\<close>

text \<open>
  C6. A notification pass, over the direct listeners of a name or over the listeners of a
  selector, goes over the list it started with: when the bodies call \<^verbatim>\<open>remove()\<close> on
  handles of existing lists, also of the list being notified, the pass invokes every
  listener of that list exactly once, in order. In a reachable state, once
  \<^verbatim>\<open>remove()\<close> of a listener's handle has returned, no later sequence of calls invokes
  that listener: its recorded invocations stay as they are. This holds when the caller
  calls \<^verbatim>\<open>remove()\<close>; when a body does during the direct pass of an \<^verbatim>\<open>update\<close> that
  returns; and when the body of any listener invoked in the course of any call does, be
  it in the direct pass or in the pass of a selector of an \<^verbatim>\<open>update\<close>, or in the
  immediate call of a subscription, the handles in that body being of existing lists.
\<close>

theorem removal_during_notification:
  "((\<forall>l \<in> set ls. \<forall>h \<in> set (cb_removes (onChange l)). target_exists s h) \<longrightarrow>
      fst (forEach (\<lambda>l. invoke l args) ls s) = None \<and>
      calls (snd (forEach (\<lambda>l. invoke l args) ls s)) =
        calls s @ map (\<lambda>l. Invoke l args) ls) \<and>
   (selectors s q = Some entry \<and> getSelector s q = Inr v \<and>
    (\<forall>l \<in> set (sel_listeners entry). \<forall>h \<in> set (cb_removes (onChange l)). target_exists s h) \<longrightarrow>
      fst (notify_selector q s) = None \<and>
      calls (snd (notify_selector q s)) =
        calls s @ map (\<lambda>l. Invoke l [v]) (sel_listeners entry)) \<and>
   (reachable s \<and> l \<in> set (list_at s k) \<longrightarrow>
      (\<forall>cs. invocations_of (l_id l)
               (calls (perform_all cs (snd (remove (handle_of k l) s)))) =
             invocations_of (l_id l) (calls s))) \<and>
   (reachable s \<and> l \<in> set (list_at s k) \<and>
    store s name = Some item \<and> listeners s name = Some dls \<and>
    compareValuesDiff data (item_data item) = Inr True \<and>
    l0 \<in> set dls \<and> handle_of k l \<in> set (cb_removes (onChange l0)) \<and>
    fst (update name data s) = None \<longrightarrow>
      (\<forall>cs. invocations_of (l_id l) (calls (perform_all cs (snd (update name data s)))) =
             invocations_of (l_id l) (calls (snd (update name data s))))) \<and>
   (reachable s \<and> l \<in> set (list_at s k) \<and>
    handle_of k l \<in> set (cb_removes (onChange l1)) \<and>
    (\<forall>h \<in> set (cb_removes (onChange l1)). target_exists s h) \<and>
    Invoke l1 args1 \<in> set (drop (length (calls s)) (calls (perform c s))) \<longrightarrow>
      (\<forall>cs. invocations_of (l_id l) (calls (perform_all cs (perform c s))) =
             invocations_of (l_id l) (calls (perform c s))))"
proof (intro conjI impI)
  assume "\<forall>l \<in> set ls. \<forall>h \<in> set (cb_removes (onChange l)). target_exists s h"
  then show "fst (forEach (\<lambda>l. invoke l args) ls s) = None"
    and "calls (snd (forEach (\<lambda>l. invoke l args) ls s)) =
        calls s @ map (\<lambda>l. Invoke l args) ls"
    using forEach_invoke_calls by blast+
next
  assume a: "selectors s q = Some entry \<and> getSelector s q = Inr v \<and>
    (\<forall>l \<in> set (sel_listeners entry). \<forall>h \<in> set (cb_removes (onChange l)). target_exists s h)"
  then show "fst (notify_selector q s) = None"
    and "calls (snd (notify_selector q s)) =
        calls s @ map (\<lambda>l. Invoke l [v]) (sel_listeners entry)"
    using forEach_selector_listeners_calls[of "sel_listeners entry" s q v]
    by (simp_all add: notify_selector_def)
next
  assume a: "reachable s \<and> l \<in> set (list_at s k)"
  let ?s' = "snd (remove (handle_of k l) s)"
  have ok: "fst (remove (handle_of k l) s) = None"
    using a target_of_listener remove_ok by blast
  have "confined (l_id l) {k} s" using a reachable_inv listener_confined by blast
  then have "confined (l_id l) {} ?s'" using ok by (intro remove_drops) simp_all
  then have "invocations_of (l_id l) (calls (perform_all cs ?s')) =
             invocations_of (l_id l) (calls ?s')" for cs
    using perform_all_dropped by blast
  then show "\<forall>cs. invocations_of (l_id l) (calls (perform_all cs ?s')) =
             invocations_of (l_id l) (calls s)"
    by (simp add: remove_calls)
next
  assume a: "reachable s \<and> l \<in> set (list_at s k) \<and>
    store s name = Some item \<and> listeners s name = Some dls \<and>
    compareValuesDiff data (item_data item) = Inr True \<and>
    l0 \<in> set dls \<and> handle_of k l \<in> set (cb_removes (onChange l0)) \<and>
    fst (update name data s) = None"
  then have "ids_inv s" using reachable_inv by blast
  moreover from a have "l \<in> set (list_at s k)" "store s name = Some item"
    "listeners s name = Some dls" "compareValuesDiff data (item_data item) = Inr True"
    "l0 \<in> set dls" "handle_of k l \<in> set (cb_removes (onChange l0))"
    "fst (update name data s) = None" by simp_all
  ultimately have "confined (l_id l) {} (snd (update name data s))"
    by (rule update_drops)
  then show "\<forall>cs. invocations_of (l_id l) (calls (perform_all cs (snd (update name data s)))) =
             invocations_of (l_id l) (calls (snd (update name data s)))"
    using perform_all_dropped by blast
next
  assume a: "reachable s \<and> l \<in> set (list_at s k) \<and>
    handle_of k l \<in> set (cb_removes (onChange l1)) \<and>
    (\<forall>h \<in> set (cb_removes (onChange l1)). target_exists s h) \<and>
    Invoke l1 args1 \<in> set (drop (length (calls s)) (calls (perform c s)))"
  then have "ids_inv s" using reachable_inv by blast
  moreover from a have "l \<in> set (list_at s k)"
    "handle_of k l \<in> set (cb_removes (onChange l1))"
    "\<forall>h \<in> set (cb_removes (onChange l1)). target_exists s h"
    "Invoke l1 args1 \<in> set (drop (length (calls s)) (calls (perform c s)))" by simp_all
  ultimately have "confined (l_id l) {} (perform c s)"
    by (rule perform_removes)
  then show "\<forall>cs. invocations_of (l_id l) (calls (perform_all cs (perform c s))) =
             invocations_of (l_id l) (calls (perform c s))"
    using perform_all_dropped by blast
qed

theorem removal_during_notification_witness:
  "fst (forEach (\<lambda>l. invoke l [JNum 5, JNum 1])
          [\<lparr>l_id = 1, onChange = Callback 0 [DataHandle ''x'' 2, DataHandle ''x'' 1]\<rparr>,
           \<lparr>l_id = 2, onChange = Callback 1 []\<rparr>] observed_store) = None \<and>
   calls (snd (forEach (\<lambda>l. invoke l [JNum 5, JNum 1])
          [\<lparr>l_id = 1, onChange = Callback 0 [DataHandle ''x'' 2, DataHandle ''x'' 1]\<rparr>,
           \<lparr>l_id = 2, onChange = Callback 1 []\<rparr>] observed_store)) =
     [Invoke \<lparr>l_id = 1, onChange = Callback 0 [DataHandle ''x'' 2, DataHandle ''x'' 1]\<rparr>
        [JNum 5, JNum 1],
      Invoke \<lparr>l_id = 2, onChange = Callback 1 []\<rparr> [JNum 5, JNum 1]] \<and>
   fst (notify_selector ''selector::double'' observed_store) = None \<and>
   calls (snd (notify_selector ''selector::double'' observed_store)) =
     [Invoke \<lparr>l_id = 0, onChange = Callback 7 []\<rparr> [JNum 2],
      Invoke \<lparr>l_id = 3, onChange = Callback 2 [SelectorHandle ''selector::double'' 4]\<rparr>
        [JNum 2],
      Invoke \<lparr>l_id = 4, onChange = Callback 3 []\<rparr> [JNum 2]] \<and>
   reachable observed_store \<and>
   (\<forall>cs. invocations_of 2
            (calls (perform_all cs (snd (remove (DataHandle ''x'' 2) observed_store)))) = []) \<and>
   fst (update ''x'' (JNum 5) observed_store) = None \<and>
   (\<forall>cs. invocations_of 2
            (calls (perform_all cs (snd (update ''x'' (JNum 5) observed_store)))) =
          [Invoke \<lparr>l_id = 2, onChange = Callback 1 []\<rparr> [JNum 5, JNum 1]]) \<and>
   Invoke \<lparr>l_id = 3, onChange = Callback 2 [SelectorHandle ''selector::double'' 4]\<rparr> [JNum 10]
     \<in> set (calls (perform (CUpdate ''x'' (JNum 5)) observed_store)) \<and>
   (\<forall>cs. invocations_of 4
            (calls (perform_all cs (perform (CUpdate ''x'' (JNum 5)) observed_store))) =
          [Invoke \<lparr>l_id = 4, onChange = Callback 3 []\<rparr> [JNum 10]])"
proof -
  let ?l1 = "\<lparr>l_id = 1, onChange = Callback 0 [DataHandle ''x'' 2, DataHandle ''x'' 1]\<rparr>"
  let ?l2 = "\<lparr>l_id = 2, onChange = Callback 1 []\<rparr>"
  let ?l3 = "\<lparr>l_id = 3, onChange = Callback 2 [SelectorHandle ''selector::double'' 4]\<rparr>"
  let ?l4 = "\<lparr>l_id = 4, onChange = Callback 3 []\<rparr>"
  let ?entry = "\<lparr>sel_transformer = doubled, sel_deps = [''x''],
          sel_listeners =
            [\<lparr>l_id = 0, onChange = Callback 7 []\<rparr>,
             \<lparr>l_id = 3, onChange = Callback 2 [SelectorHandle ''selector::double'' 4]\<rparr>,
             \<lparr>l_id = 4, onChange = Callback 3 []\<rparr>]\<rparr>"
  let ?item = "\<lparr>item_data = JNum 1, item_selectors = [''selector::double'']\<rparr>"
  note T = removal_during_notification[where s = observed_store and ls = "[?l1, ?l2]"
      and args = "[JNum 5, JNum 1]" and q = "''selector::double''" and entry = ?entry
      and v = "JNum 2" and l = ?l2 and k = "DataSlot ''x''" and name = "''x''"
      and item = ?item and dls = "[?l1, ?l2]" and data = "JNum 5" and ?l0.0 = ?l1]
  note U = removal_during_notification[where s = observed_store
      and l = ?l4 and k = "SelectorSlot ''selector::double''" and ?l1.0 = ?l3
      and ?args1.0 = "[JNum 10]" and c = "CUpdate ''x'' (JNum 5)",
      THEN conjunct2, THEN conjunct2, THEN conjunct2, THEN conjunct2]
  have r: "reachable observed_store" by (rule reachable_observed_store)
  have h1: "\<forall>l \<in> set [?l1, ?l2]. \<forall>h \<in> set (cb_removes (onChange l)).
              target_exists observed_store h"
    by (simp add: observed_store_eq)
  have h2: "selectors observed_store ''selector::double'' = Some ?entry \<and>
            getSelector observed_store ''selector::double'' = Inr (JNum 2) \<and>
            (\<forall>l \<in> set (sel_listeners ?entry). \<forall>h \<in> set (cb_removes (onChange l)).
               target_exists observed_store h)"
    by (simp add: observed_store_eq getSelector_def doubled_def)
  have h3: "?l2 \<in> set (list_at observed_store (DataSlot ''x''))"
    by (simp add: observed_store_eq)
  have h4: "store observed_store ''x'' = Some ?item \<and>
            listeners observed_store ''x'' = Some [?l1, ?l2] \<and>
            compareValuesDiff (JNum 5) (item_data ?item) = Inr True \<and>
            ?l1 \<in> set [?l1, ?l2] \<and>
            handle_of (DataSlot ''x'') ?l2 \<in> set (cb_removes (onChange ?l1))"
    by (simp add: observed_store_eq eval_defs)
  have h5: "?l4 \<in> set (list_at observed_store (SelectorSlot ''selector::double'')) \<and>
            handle_of (SelectorSlot ''selector::double'') ?l4 \<in> set (cb_removes (onChange ?l3)) \<and>
            (\<forall>h \<in> set (cb_removes (onChange ?l3)). target_exists observed_store h)"
    by (simp add: observed_store_eq)
  have c: "calls observed_store = []" by (simp add: observed_store_eq)
  have h6: "Invoke ?l3 [JNum 10] \<in> set (drop (length (calls observed_store))
              (calls (perform (CUpdate ''x'' (JNum 5)) observed_store)))"
    using observed_store_update c by simp
  from T h1 have p1: "fst (forEach (\<lambda>l. invoke l [JNum 5, JNum 1]) [?l1, ?l2] observed_store) = None \<and>
      calls (snd (forEach (\<lambda>l. invoke l [JNum 5, JNum 1]) [?l1, ?l2] observed_store)) =
        [Invoke ?l1 [JNum 5, JNum 1], Invoke ?l2 [JNum 5, JNum 1]]"
    using c by simp
  from T h2 have p2: "fst (notify_selector ''selector::double'' observed_store) = None \<and>
      calls (snd (notify_selector ''selector::double'' observed_store)) =
        map (\<lambda>l. Invoke l [JNum 2]) (sel_listeners ?entry)"
    using c by simp
  from T r h3 have p3: "\<forall>cs. invocations_of 2
            (calls (perform_all cs (snd (remove (DataHandle ''x'' 2) observed_store)))) = []"
    using c by (simp add: invocations_of_def)
  from T r h3 h4 observed_store_update
  have p4: "\<forall>cs. invocations_of 2
            (calls (perform_all cs (snd (update ''x'' (JNum 5) observed_store)))) =
          [Invoke ?l2 [JNum 5, JNum 1]]"
    by (simp add: invocations_of_def)
  from U r h5 h6 have "\<forall>cs. invocations_of (l_id ?l4)
            (calls (perform_all cs (perform (CUpdate ''x'' (JNum 5)) observed_store))) =
          invocations_of (l_id ?l4) (calls (perform (CUpdate ''x'' (JNum 5)) observed_store))"
    by blast
  then have p5: "\<forall>cs. invocations_of 4
            (calls (perform_all cs (perform (CUpdate ''x'' (JNum 5)) observed_store))) =
          [Invoke ?l4 [JNum 10]]"
    using observed_store_update by (simp add: invocations_of_def)
  have p6: "Invoke ?l3 [JNum 10] \<in> set (calls (perform (CUpdate ''x'' (JNum 5)) observed_store))"
    using observed_store_update by simp
  show ?thesis using p1 p2 p3 p4 p5 p6 r observed_store_update by simp
qed

subsection \<open>Updating a value\<close>





subsection \<open>Subscribing\<close>



subsection \<open>Updating with an equal value\<close>

text \<open>
  C2, as the code has it. \<^verbatim>\<open>update\<close> compares the new value with the value stored
  under the name. When the comparator reports no difference between them, the call
  returns the state it was given: nothing is stored and no listener is invoked. So it is
  for \<^verbatim>\<open>update(name, v2)\<close> after an \<^verbatim>\<open>update(name, v1)\<close> that stored \<open>v1\<close>, when the
  comparator reports no difference of \<open>v2\<close> from \<open>v1\<close>.
\<close>

theorem update_equal_to_stored_is_noop:
  "(store s name = Some item \<and> compareValuesDiff v2 (item_data item) = Inr False \<longrightarrow>
      update name v2 s = (None, s)) \<and>
   (store s name = Some item \<and> listeners s name = Some ls \<and>
    compareValuesDiff v1 (item_data item) = Inr True \<and> compareValuesDiff v2 v1 = Inr False \<longrightarrow>
      update name v2 (snd (update name v1 s)) = (None, snd (update name v1 s)))"
proof (intro conjI impI)
  assume "store s name = Some item \<and> compareValuesDiff v2 (item_data item) = Inr False"
  then show "update name v2 s = (None, s)" using update_unchanged by blast
next
  assume a: "store s name = Some item \<and> listeners s name = Some ls \<and>
    compareValuesDiff v1 (item_data item) = Inr True \<and> compareValuesDiff v2 v1 = Inr False"
  then have "store (snd (update name v1 s)) name = Some (item\<lparr>item_data := v1\<rparr>)"
    using update_stores[of s name item ls v1] by simp
  then show "update name v2 (snd (update name v1 s)) = (None, snd (update name v1 s))"
    using a by (intro update_unchanged[where item = "item\<lparr>item_data := v1\<rparr>"]) simp_all
qed

theorem update_equal_to_stored_is_noop_witness:
  "store first_key_store ''x'' =
     Some \<lparr>item_data = JObj [(''a'', JNum 1), (''b'', JNum 1)], item_selectors = []\<rparr> \<and>
   compareValuesDiff (JObj [(''a'', JNum 1), (''b'', JNum 2)])
                     (JObj [(''a'', JNum 1), (''b'', JNum 1)]) = Inr False \<and>
   update ''x'' (JObj [(''a'', JNum 1), (''b'', JNum 2)]) first_key_store = (None, first_key_store) \<and>
   listeners first_key_store ''x'' = Some [\<lparr>l_id = 0, onChange = Callback 0 []\<rparr>] \<and>
   compareValuesDiff (JObj [(''a'', JNum 7)]) (JObj [(''a'', JNum 1), (''b'', JNum 1)]) = Inr True \<and>
   compareValuesDiff (JObj [(''a'', JNum 7)]) (JObj [(''a'', JNum 7)]) = Inr False \<and>
   update ''x'' (JObj [(''a'', JNum 7)]) (snd (update ''x'' (JObj [(''a'', JNum 7)]) first_key_store)) =
     (None, snd (update ''x'' (JObj [(''a'', JNum 7)]) first_key_store))"
proof -
  let ?item = "\<lparr>item_data = JObj [(''a'', JNum 1), (''b'', JNum 1)], item_selectors = []\<rparr>"
  have h: "store first_key_store ''x'' = Some ?item"
      "listeners first_key_store ''x'' = Some [\<lparr>l_id = 0, onChange = Callback 0 []\<rparr>]"
    by (simp_all add: first_key_store_eq)
  have c: "compareValuesDiff (JObj [(''a'', JNum 1), (''b'', JNum 2)]) (item_data ?item) = Inr False"
      "compareValuesDiff (JObj [(''a'', JNum 7)]) (item_data ?item) = Inr True"
      "compareValuesDiff (JObj [(''a'', JNum 7)]) (JObj [(''a'', JNum 7)]) = Inr False"
    by (simp_all add: eval_defs)
  from update_equal_to_stored_is_noop[of first_key_store "''x''" ?item
      "JObj [(''a'', JNum 1), (''b'', JNum 2)]"] h c
  have 1: "update ''x'' (JObj [(''a'', JNum 1), (''b'', JNum 2)]) first_key_store =
             (None, first_key_store)" by blast
  from update_equal_to_stored_is_noop[of first_key_store "''x''" ?item "JObj [(''a'', JNum 7)]"
      "[\<lparr>l_id = 0, onChange = Callback 0 []\<rparr>]" "JObj [(''a'', JNum 7)]"] h c
  have 2: "update ''x'' (JObj [(''a'', JNum 7)])
             (snd (update ''x'' (JObj [(''a'', JNum 7)]) first_key_store)) =
           (None, snd (update ''x'' (JObj [(''a'', JNum 7)]) first_key_store))" by blast
  show ?thesis using 1 2 h c by simp
qed

text \<open>
  C2 as stated fails where the first \<^verbatim>\<open>update\<close> stores nothing: with \<open>{a:1, b:1}\<close>
  stored, \<open>{a:1, b:2}\<close> is judged equal to it by its first key and is not stored;
  \<open>{b:2, a:1}\<close> is judged equal to \<open>{a:1, b:2}\<close>, in both orders, but different from the
  stored value, so the second \<^verbatim>\<open>update\<close> stores it and invokes the listener.
\<close>

theorem unequal_to_stored_counterexample:
  "compareValuesDiff (JObj [(''b'', JNum 2), (''a'', JNum 1)])
                     (JObj [(''a'', JNum 1), (''b'', JNum 2)]) = Inr False \<and>
   compareValuesDiff (JObj [(''a'', JNum 1), (''b'', JNum 2)])
                     (JObj [(''b'', JNum 2), (''a'', JNum 1)]) = Inr False \<and>
   snd (update ''x'' (JObj [(''a'', JNum 1), (''b'', JNum 2)]) first_key_store) = first_key_store \<and>
   calls (snd (update ''x'' (JObj [(''b'', JNum 2), (''a'', JNum 1)])
                (snd (update ''x'' (JObj [(''a'', JNum 1), (''b'', JNum 2)]) first_key_store)))) =
     calls (snd (update ''x'' (JObj [(''a'', JNum 1), (''b'', JNum 2)]) first_key_store)) @
     [Invoke \<lparr>l_id = 0, onChange = Callback 0 []\<rparr>
        [JObj [(''b'', JNum 2), (''a'', JNum 1)], JObj [(''a'', JNum 1), (''b'', JNum 1)]]] \<and>
   store (snd (update ''x'' (JObj [(''b'', JNum 2), (''a'', JNum 1)])
                (snd (update ''x'' (JObj [(''a'', JNum 1), (''b'', JNum 2)]) first_key_store))))
         ''x'' =
     Some \<lparr>item_data = JObj [(''b'', JNum 2), (''a'', JNum 1)], item_selectors = []\<rparr>"
proof -
  have 1: "update ''x'' (JObj [(''a'', JNum 1), (''b'', JNum 2)]) first_key_store =
             (None, first_key_store)"
    by (rule update_unchanged[where item = "\<lparr>item_data = JObj [(''a'', JNum 1), (''b'', JNum 1)],
                       item_selectors = []\<rparr>"])
       (simp_all add: first_key_store_eq eval_defs)
  show ?thesis unfolding 1 by (simp add: first_key_store_eq eval_defs)
qed

subsection \<open>Failures of \<^verbatim>\<open>defineSelector\<close>\<close>

text \<open>
  C5, as the code has it. \<^verbatim>\<open>defineSelector\<close> with a name that is not a string throws
  \<open>InvalidArgumentError\<close> and leaves the store as it was. With a dependency that has no
  value entry it throws the runtime's \<^verbatim>\<open>TypeError\<close> for reading a property of
  \<^verbatim>\<open>undefined\<close>; no selector entry is created or changed, and the store differs in
  this only: every dependency that comes before the first one without an entry has the
  qualified selector name in its dependent list, added at the end when it was not there.
\<close>

theorem defineSelector_failures:
  "(typeof nm \<noteq> TString \<longrightarrow> defineSelector nm deps t s = (Some InvalidArgumentError, s)) \<and>
   (d \<in> set (as_array deps) \<and> store s d = None \<longrightarrow>
      defineSelector (JStr name) deps t s =
        (Some UndefinedAccessError,
         s\<lparr>store := \<lambda>n. if n \<in> set (known_prefix s (as_array deps))
                           then map_option (add_dependent (qualify name)) (store s n)
                           else store s n\<rparr>))"
proof (intro conjI impI)
  assume "typeof nm \<noteq> TString"
  then show "defineSelector nm deps t s = (Some InvalidArgumentError, s)"
    by (cases nm) (simp_all add: defineSelector_def)
next
  assume "d \<in> set (as_array deps) \<and> store s d = None"
  then have "\<not> (\<forall>d \<in> set (as_array deps). store s d \<noteq> None)" by blast
  then show "defineSelector (JStr name) deps t s =
        (Some UndefinedAccessError,
         s\<lparr>store := \<lambda>n. if n \<in> set (known_prefix s (as_array deps))
                           then map_option (add_dependent (qualify name)) (store s n)
                           else store s n\<rparr>)"
    by (simp add: defineSelector_def Let_def forEach_register_dep_exact)
qed

theorem defineSelector_failures_witness:
  "typeof (JNum 3) \<noteq> TString \<and>
   defineSelector (JNum 3) (DepSingle ''x'') (\<lambda>vs. JNull) store_with_double =
     (Some InvalidArgumentError, store_with_double) \<and>
   ''y'' \<in> set (as_array (DepArray [''x'', ''y''])) \<and> store store_with_double ''y'' = None \<and>
   fst (defineSelector (JStr ''sum'') (DepArray [''x'', ''y'']) (\<lambda>vs. JNull) store_with_double) =
     Some UndefinedAccessError \<and>
   selectors (snd (defineSelector (JStr ''sum'') (DepArray [''x'', ''y'']) (\<lambda>vs. JNull)
                     store_with_double)) = selectors store_with_double \<and>
   store (snd (defineSelector (JStr ''sum'') (DepArray [''x'', ''y'']) (\<lambda>vs. JNull)
                 store_with_double)) ''x'' =
     Some \<lparr>item_data = JNum 1, item_selectors = [''selector::double'', ''selector::sum'']\<rparr>"
proof -
  have h: "store store_with_double ''y'' = None" by (simp add: store_with_double_eq)
  note T = defineSelector_failures[where nm = "JNum 3" and deps = "DepSingle ''x''"
      and t = "\<lambda>vs. JNull" and s = store_with_double, THEN conjunct1]
    defineSelector_failures[where s = store_with_double and d = "''y''"
      and deps = "DepArray [''x'', ''y'']" and name = "''sum''" and t = "\<lambda>vs. JNull",
      THEN conjunct2]
  have 1: "defineSelector (JNum 3) (DepSingle ''x'') (\<lambda>vs. JNull) store_with_double =
     (Some InvalidArgumentError, store_with_double)"
    using T(1) by simp
  have 2: "defineSelector (JStr ''sum'') (DepArray [''x'', ''y'']) (\<lambda>vs. JNull) store_with_double =
        (Some UndefinedAccessError,
         store_with_double\<lparr>store := \<lambda>n. if n \<in> set (known_prefix store_with_double
                                                       (as_array (DepArray [''x'', ''y''])))
                           then map_option (add_dependent (qualify ''sum''))
                                  (store store_with_double n)
                           else store store_with_double n\<rparr>)"
    using T(2) h by simp
  show ?thesis
    unfolding 1 2
    by (simp add: store_with_double_eq known_prefix_def add_dependent_def qualify_def
        SELECTOR_PREFIX_def)
qed

text \<open>
  C5 as stated fails: with \<open>x\<close> in the registry and \<open>y\<close> not,
  \<^verbatim>\<open>defineSelector('sum', ['x', 'y'], f)\<close> throws after it has added
  \<open>selector::sum\<close> to the dependent list of \<open>x\<close>.
\<close>

theorem defineSelector_partial_counterexample:
  "store store_with_double ''y'' = None \<and>
   fst (defineSelector (JStr ''sum'') (DepArray [''x'', ''y'']) (\<lambda>vs. JNull) store_with_double) =
     Some UndefinedAccessError \<and>
   map_option item_selectors (store store_with_double ''x'') = Some [''selector::double''] \<and>
   map_option item_selectors
     (store (snd (defineSelector (JStr ''sum'') (DepArray [''x'', ''y'']) (\<lambda>vs. JNull)
                    store_with_double)) ''x'') =
     Some [''selector::double'', ''selector::sum'']"
  by (simp add: store_with_double_eq defineSelector_def register_dep_def qualify_def
      SELECTOR_PREFIX_def Let_def)

subsection \<open>Bare selector names\<close>

text \<open>
  C8, as the code has it. \<^verbatim>\<open>defineSelector\<close>, \<^verbatim>\<open>addSelectorListener\<close> and the
  selector list of \<^verbatim>\<open>initDataStore\<close> prepend the prefix to a name that does not start
  with it, so a bare name and its qualified form behave identically there. \<^verbatim>\<open>get\<close>
  tells a selector from a raw value by the prefix: a bare name is looked up in the value
  registry.
\<close>

theorem bare_selector_names:
  "initDataStore data (map qualify sels) s = initDataStore data sels s \<and>
   (\<not> prefix SELECTOR_PREFIX name \<longrightarrow>
      qualify name = SELECTOR_PREFIX @ name \<and>
      defineSelector (JStr name) deps t s =
        defineSelector (JStr (SELECTOR_PREFIX @ name)) deps t s \<and>
      addSelectorListener name cb imm s = addSelectorListener (SELECTOR_PREFIX @ name) cb imm s \<and>
      get s name = (case store s name of
                      None \<Rightarrow> Inl NotInitializedError
                    | Some item \<Rightarrow> Inr (item_data item)))"
  by (simp add: initDataStore_qualified qualify_bare qualify_qualified defineSelector_def
      addSelectorListener_def get_def)

theorem bare_selector_names_witness:
  "\<not> prefix SELECTOR_PREFIX ''double'' \<and>
   qualify ''double'' = ''selector::double'' \<and>
   initDataStore [] [''selector::double''] store_with_double =
     initDataStore [] [''double''] store_with_double \<and>
   defineSelector (JStr ''double'') (DepSingle ''x'') doubled store_with_double =
     defineSelector (JStr ''selector::double'') (DepSingle ''x'') doubled store_with_double \<and>
   addSelectorListener ''double'' (Callback 5 []) True store_with_double =
     addSelectorListener ''selector::double'' (Callback 5 []) True store_with_double \<and>
   get store_with_double ''double'' = Inl NotInitializedError"
proof -
  have h: "\<not> prefix SELECTOR_PREFIX ''double''" by (simp add: SELECTOR_PREFIX_def)
  have p: "SELECTOR_PREFIX @ ''double'' = ''selector::double''" by (simp add: SELECTOR_PREFIX_def)
  have n: "store store_with_double ''double'' = None" by (simp add: store_with_double_eq)
  have q: "qualify ''double'' = ''selector::double''" by (simp add: qualify_def SELECTOR_PREFIX_def)
  show ?thesis
    using bare_selector_names[of "[]" "[''double'']" store_with_double "''double''"
        "DepSingle ''x''" doubled "Callback 5 []" True] h n
    by (simp add: p q)
qed

text \<open>
  C8 as stated fails for \<^verbatim>\<open>get\<close>: with the selector \<open>double\<close> defined and no raw
  value of that name, \<^verbatim>\<open>get('double')\<close> throws \<open>NotInitializedError\<close> while
  \<^verbatim>\<open>get('selector::double')\<close> returns the computed value.
\<close>

theorem get_bare_name_counterexample:
  "get store_with_double ''double'' = Inl NotInitializedError \<and>
   get store_with_double ''selector::double'' = Inr (JNum 2)"
  by (simp add: store_with_double_eq get_def getSelector_def SELECTOR_PREFIX_def doubled_def)

subsection \<open>\<^verbatim>\<open>initDataStore\<close> on a store in use\<close>

text \<open>
  C10. For every name of its selector list \<^verbatim>\<open>initDataStore\<close> leaves, under the
  qualified name, the placeholder entry (a transformer returning \<^verbatim>\<open>undefined\<close>, no
  dependencies, no listeners), whatever entry was there; a value name that has an entry
  keeps its entry (value and dependent list) and its listeners, whether or not the data
  argument lists it.
\<close>

theorem initDataStore_overwrites_selectors:
  "(n \<in> set sels \<longrightarrow>
      selectors (initDataStore data sels s) (qualify n) =
        Some \<lparr>sel_transformer = (\<lambda>args. JUndefined), sel_deps = [], sel_listeners = []\<rparr>) \<and>
   (store s m \<noteq> None \<longrightarrow>
      store (initDataStore data sels s) m = store s m \<and>
      listeners (initDataStore data sels s) m = listeners s m)"
proof (intro conjI impI)
  let ?s1 = "fold (\<lambda>(name, initialValue) s'. initDataStoreItem name initialValue s') data s"
  note P = fold_placeholders[of sels ?s1]
  {
    assume "n \<in> set sels"
    then have "selectors (initDataStore data sels s) (qualify n) = Some placeholder"
      using P[of "qualify n"] by (simp add: initDataStore_def)
    then show "selectors (initDataStore data sels s) (qualify n) =
        Some \<lparr>sel_transformer = (\<lambda>args. JUndefined), sel_deps = [], sel_listeners = []\<rparr>"
      by (simp add: placeholder_def)
  }
  {
    assume "store s m \<noteq> None"
    then have "store ?s1 m = store s m \<and> listeners ?s1 m = listeners s m"
      by (rule fold_items_keep)
    then show "store (initDataStore data sels s) m = store s m"
      and "listeners (initDataStore data sels s) m = listeners s m"
      using P[of "[]"] by (simp_all add: initDataStore_def)
  }
qed

theorem initDataStore_overwrites_selectors_witness:
  "''double'' \<in> set [''double''] \<and>
   selectors watched_store (qualify ''double'') =
     Some \<lparr>sel_transformer = doubled, sel_deps = [''x''],
           sel_listeners = [\<lparr>l_id = 0, onChange = Callback 7 []\<rparr>]\<rparr> \<and>
   selectors (initDataStore [(''x'', JNum 99)] [''double''] watched_store) (qualify ''double'') =
     Some \<lparr>sel_transformer = (\<lambda>args. JUndefined), sel_deps = [], sel_listeners = []\<rparr> \<and>
   store watched_store ''x'' \<noteq> None \<and>
   store (initDataStore [(''x'', JNum 99)] [''double''] watched_store) ''x'' =
     Some \<lparr>item_data = JNum 1, item_selectors = [''selector::double'']\<rparr> \<and>
   listeners (initDataStore [(''x'', JNum 99)] [''double''] watched_store) ''x'' =
     Some [\<lparr>l_id = 1, onChange = Callback 0 []\<rparr>, \<lparr>l_id = 2, onChange = Callback 1 []\<rparr>]"
proof -
  have h: "store watched_store ''x'' \<noteq> None" by (simp add: watched_store_eq)
  have e: "selectors watched_store (qualify ''double'') =
     Some \<lparr>sel_transformer = doubled, sel_deps = [''x''],
           sel_listeners = [\<lparr>l_id = 0, onChange = Callback 7 []\<rparr>]\<rparr>"
      "store watched_store ''x'' =
         Some \<lparr>item_data = JNum 1, item_selectors = [''selector::double'']\<rparr>"
      "listeners watched_store ''x'' =
     Some [\<lparr>l_id = 1, onChange = Callback 0 []\<rparr>, \<lparr>l_id = 2, onChange = Callback 1 []\<rparr>]"
    by (simp_all add: watched_store_eq qualify_def SELECTOR_PREFIX_def)
  show ?thesis
    using initDataStore_overwrites_selectors[of "''double''" "[''double'']"
        "[(''x'', JNum 99)]" watched_store "''x''"] h e
    by simp
qed

end
